theory Spec2Isabelle
  imports Main "HOL-Library.FSet"
begin

section \<open>Python values shared by the models\<close>

text \<open>
  Python integers are unbounded and are modelled by \<open>int\<close>. Every exception the modelled
  code can raise is a value of \<open>py_error\<close>; a function that can raise returns
  \<open>py_error + 'a\<close> with \<open>Inl\<close> for the exception.
\<close>

datatype py_error =
    KeyError
  | TypeError
  | ValueError
  | AssertionError
  | FileNotFoundError
  | ToolError string
  | AnalyseError string
  | RuntimeError "py_error list"

subsection \<open>pathlib paths\<close>

text \<open>
  A path is its parent (the list of directory parts) and its final component, the name.
  \<open>suffix\<close>, \<open>stem\<close> and \<open>with_suffix\<close> follow \<open>pathlib.PurePath\<close>: with
  \<open>i = name.rfind('.')\<close>, the suffix is \<open>name[i:]\<close> when \<open>0 < i < len(name) - 1\<close> and
  empty otherwise.
\<close>

datatype path = Path (parent: "string list") (name: string)

fun rfind :: "'a \<Rightarrow> 'a list \<Rightarrow> int" where
  "rfind c [] = - 1"
| "rfind c (x # xs) =
     (let r = rfind c xs in if 0 \<le> r then r + 1 else if x = c then 0 else - 1)"

definition name_suffix :: "string \<Rightarrow> string" where
  "name_suffix n =
     (let i = rfind (CHR ''.'') n
      in if 0 < i \<and> i < int (length n) - 1 then drop (nat i) n else [])"

definition name_stem :: "string \<Rightarrow> string" where
  "name_stem n =
     (let i = rfind (CHR ''.'') n
      in if 0 < i \<and> i < int (length n) - 1 then take (nat i) n else n)"

definition suffix :: "path \<Rightarrow> string" where
  "suffix p = name_suffix (name p)"

definition stem :: "path \<Rightarrow> string" where
  "stem p = name_stem (name p)"

definition with_suffix :: "path \<Rightarrow> string \<Rightarrow> py_error + path" where
  "with_suffix p s =
     (if CHR ''/'' \<in> set s then Inl ValueError
      else if (s \<noteq> [] \<and> hd s \<noteq> CHR ''.'') \<or> s = ''.'' then Inl ValueError
      else if name p = [] then Inl ValueError
      else let old_suffix = suffix p
           in if old_suffix = [] then Inr (Path (parent p) (name p @ s))
              else Inr (Path (parent p)
                     (take (length (name p) - length old_suffix) (name p) @ s)))"

text \<open>\<open>folder / name\<close> for a name without separators.\<close>

definition path_join :: "path \<Rightarrow> string \<Rightarrow> path" where
  "path_join folder n = Path (parent folder @ [name folder]) n"

section \<open>The Psyclone step: the prebuild hash\<close>

text \<open>
  The analysis results. Both kinds of result carry the path analysed and a file hash;
  an \<open>AnalysedX90\<close> adds the kernel dependencies, an \<open>AnalysedFortran\<close> adds the
  fields the spec's data model lists. The classes themselves (\<open>fab.parse\<close>) are not
  among the sources.
\<close>

record AnalysedFile =
  fpath :: path
  file_hash :: int

record AnalysedX90 = AnalysedFile +
  kernel_deps :: "string fset"

record AnalysedFortran = AnalysedFile +
  file_deps :: "path fset"
  module_defs :: "string fset"
  module_deps :: "string fset"
  psyclone_kernels :: "string \<rightharpoonup> int"

record MpPayload =
  analysed_x90 :: "path \<rightharpoonup> AnalysedX90"
  all_kernel_hashes :: "string \<rightharpoonup> int"
  transformation_script_hash :: int

text \<open>
  \<open>Psyclone._gen_prebuild_hash\<close>. \<open>string_checksum\<close> (of \<open>fab.util\<close>) and Python's
  \<open>str\<close> of a list of strings are parameters. Both dictionary lookups raise
  \<open>KeyError\<close> on a missing key. \<open>kernel_deps_hashes\<close> is a set comprehension, so it is
  the image of the dependencies under the lookup; Python's \<open>sum\<close> adds unbounded integers.
\<close>

definition gen_prebuild_hash ::
  "(string \<Rightarrow> int) \<Rightarrow> (string list \<Rightarrow> string) \<Rightarrow> string list \<Rightarrow> path \<Rightarrow> MpPayload
     \<Rightarrow> py_error + int" where
  "gen_prebuild_hash string_checksum str cli_args x90_file mp_payload =
     (case analysed_x90 mp_payload x90_file of
        None \<Rightarrow> Inl KeyError
      | Some analysis_result \<Rightarrow>
          if fBex (kernel_deps analysis_result) (\<lambda>kernel_name. all_kernel_hashes mp_payload kernel_name = None)
          then Inl KeyError
          else
            let kernel_deps_hashes =
                  (\<lambda>kernel_name. the (all_kernel_hashes mp_payload kernel_name)) |`| kernel_deps analysis_result
            in Inr (sum_list
                 [file_hash analysis_result,
                  sum id (fset kernel_deps_hashes),
                  transformation_script_hash mp_payload,
                  string_checksum (str cli_args)]))"

text \<open>
  Modelled from the spec: the hasher's \<open>combine\<close> is not a function of the sources; the
  spec (section 4.1) defines it as the integer sum of the hashes modulo \<open>2^32\<close>.
\<close>

definition combine :: "int list \<Rightarrow> int" where
  "combine hashes = sum_list hashes mod 2 ^ 32"

text \<open>
  The combo hash as the spec's section 4.8 writes it: \<open>combine\<close> of the file hash, the sum
  over the kernel dependencies of their entries, the transformation-script hash and the
  string hash of the command-line arguments.
\<close>

definition spec_combo ::
  "(string \<Rightarrow> int) \<Rightarrow> (string list \<Rightarrow> string) \<Rightarrow> string list \<Rightarrow> AnalysedX90
     \<Rightarrow> (string \<rightharpoonup> int) \<Rightarrow> int \<Rightarrow> int" where
  "spec_combo string_checksum str cli_args analysed kernel_hashes script_hash =
     combine
       [file_hash analysed,
        (\<Sum>k \<in> fset (kernel_deps analysed). the (kernel_hashes k)),
        script_hash,
        string_checksum (str cli_args)]"

section \<open>The compile scheduler: the two combo hashes of process_file\<close>




section \<open>The Psyclone step: kernel analysis\<close>

text \<open>
  What a step changes besides its result: the files on disk (a path has the text of its
  file, or \<open>None\<close> when no file is there), the collections \<open>CURRENT_PREBUILDS\<close> and
  \<open>psyclone_output\<close> of the artefact store, and the log, which has one entry for each
  call of \<open>logger.error\<close>: the list of errors that call reports.
\<close>

record build_state =
  files :: "path \<rightharpoonup> string"
  current_prebuilds :: "path set"
  psyclone_output :: "path list"
  error_log :: "py_error list list"

text \<open>\<open>BuildConfig.add_current_prebuilds\<close>.\<close>

definition add_current_prebuilds :: "path list \<Rightarrow> build_state \<Rightarrow> build_state" where
  "add_current_prebuilds artefacts st =
     st\<lparr>current_prebuilds := current_prebuilds st \<union> set artefacts\<rparr>"

text \<open>
  \<open>by_type\<close> (of \<open>fab.util\<close>) keeps the items of one type. A result of an analysis is an
  exception or an analysis; an artefact is a path or \<open>None\<close>.
\<close>

fun by_type_Exception :: "(py_error + 'a) list \<Rightarrow> py_error list" where
  "by_type_Exception [] = []"
| "by_type_Exception (Inl e # rs) = e # by_type_Exception rs"
| "by_type_Exception (Inr a # rs) = by_type_Exception rs"

fun by_type_Analysed :: "(py_error + 'a) list \<Rightarrow> 'a list" where
  "by_type_Analysed [] = []"
| "by_type_Analysed (Inl e # rs) = by_type_Analysed rs"
| "by_type_Analysed (Inr a # rs) = a # by_type_Analysed rs"

fun by_type_Path :: "path option list \<Rightarrow> path list" where
  "by_type_Path [] = []"
| "by_type_Path (None # rs) = by_type_Path rs"
| "by_type_Path (Some p # rs) = p # by_type_Path rs"

text \<open>
  Modelled from the spec: \<open>suffix_filter\<close> (of \<open>fab.util\<close>) is not among the sources; the
  spec has it keep the paths with one of the given suffixes.
\<close>

definition suffix_filter :: "path list \<Rightarrow> string list \<Rightarrow> path list" where
  "suffix_filter fpaths suffixes = filter (\<lambda>p. suffix p \<in> set suffixes) fpaths"

text \<open>
  \<open>set(*chain(file_lists))\<close>: \<open>chain\<close> of the one list \<open>file_lists\<close> yields its elements,
  the file lists, and the star passes each of them to \<open>set\<close> as an argument of its own.
  \<open>set\<close> takes at most one argument and raises \<open>TypeError\<close> for more. The set is kept as
  a list without duplicates.
\<close>

definition set_star_chain :: "'a list list \<Rightarrow> py_error + 'a list" where
  "set_star_chain file_lists =
     (case file_lists of
        [] \<Rightarrow> Inr []
      | [file_list] \<Rightarrow> Inr (remdups file_list)
      | _ \<Rightarrow> Inl TypeError)"

text \<open>
  The loop that gathers all kernel hashes: each analysed file's kernels must be disjoint
  from the names gathered so far (the \<open>assert\<close>), then they are added to the dictionary.
\<close>

fun gather_kernel_hashes ::
  "(string \<rightharpoonup> int) \<Rightarrow> AnalysedFortran list \<Rightarrow> py_error + (string \<rightharpoonup> int)" where
  "gather_kernel_hashes hashes [] = Inr hashes"
| "gather_kernel_hashes hashes (af # afs) =
     (if dom (psyclone_kernels af) \<inter> dom hashes = {}
      then gather_kernel_hashes (hashes ++ psyclone_kernels af) afs
      else Inl AssertionError)"

text \<open>
  \<open>Psyclone._analyse_kernels\<close>. \<open>file_walk\<close> (of \<open>fab.util\<close>) and the Fortran analyser's
  \<open>run\<close>, which returns an analysis or an exception together with its prebuild file or
  \<open>None\<close>, are parameters; \<open>run_mp\<close> maps a function over the items, in their order.
\<close>

definition analyse_kernels ::
  "(path \<Rightarrow> path list \<Rightarrow> path list) \<Rightarrow> (path \<Rightarrow> (py_error + AnalysedFortran) \<times> path option)
     \<Rightarrow> path \<Rightarrow> path list \<Rightarrow> build_state \<Rightarrow> (py_error + (string \<rightharpoonup> int)) \<times> build_state" where
  "analyse_kernels file_walk fortran_analyser_run prebuild_folder kernel_roots st =
     (let file_lists = map (\<lambda>root. file_walk root [prebuild_folder]) kernel_roots
      in case set_star_chain file_lists of
           Inl e \<Rightarrow> (Inl e, st)
         | Inr all_kernel_files \<Rightarrow>
             let kernel_files = suffix_filter all_kernel_files [''.f90''];
                 fortran_results = map fortran_analyser_run kernel_files;
                 fortran_analyses = map fst fortran_results;
                 fortran_artefacts = map snd fortran_results;
                 errors = by_type_Exception fortran_analyses;
                 st1 = (if errors \<noteq> [] then st\<lparr>error_log := error_log st @ [errors]\<rparr> else st);
                 prebuild_files = by_type_Path fortran_artefacts;
                 st2 = add_current_prebuilds prebuild_files st1;
                 analysed_fortran = by_type_Analysed fortran_analyses
             in (gather_kernel_hashes Map.empty analysed_fortran, st2))"

text \<open>
  The files of a single kernel root that the Fortran analyser analysed without an
  exception, in the order of their analysis: the list \<open>analysed_fortran\<close> of
  \<open>_analyse_kernels\<close> when there is one root.
\<close>

definition analysed_kernel_files ::
  "(path \<Rightarrow> path list \<Rightarrow> path list) \<Rightarrow> (path \<Rightarrow> (py_error + AnalysedFortran) \<times> path option)
     \<Rightarrow> path \<Rightarrow> path \<Rightarrow> AnalysedFortran list" where
  "analysed_kernel_files file_walk fortran_analyser_run prebuild_folder root =
     by_type_Analysed (map fst (map fortran_analyser_run
       (suffix_filter (remdups (file_walk root [prebuild_folder])) [''.f90''])))"

text \<open>
  An example tree for kernel analysis: a root with two Fortran files and a text file, an
  analyser that finds the kernel \<open>kern_type\<close> in every file, and one that finds \<open>ka\<close>
  in \<open>a.f90\<close> and \<open>kb\<close> in any other file.
\<close>

definition ex_walk :: "path \<Rightarrow> path list \<Rightarrow> path list" where
  "ex_walk root ignore_folders =
     [Path [''k''] ''a.f90'', Path [''k''] ''b.f90'', Path [''k''] ''readme.txt'']"

definition ex_kernel_file :: "path \<Rightarrow> (string \<rightharpoonup> int) \<Rightarrow> AnalysedFortran" where
  "ex_kernel_file p kernels =
     \<lparr>fpath = p, file_hash = 1, file_deps = {||}, module_defs = {||}, module_deps = {||},
      psyclone_kernels = kernels\<rparr>"

definition ex_run_same :: "path \<Rightarrow> (py_error + AnalysedFortran) \<times> path option" where
  "ex_run_same p = (Inr (ex_kernel_file p [''kern_type'' \<mapsto> 7]), None)"

definition ex_run_distinct :: "path \<Rightarrow> (py_error + AnalysedFortran) \<times> path option" where
  "ex_run_distinct p =
     (Inr (ex_kernel_file p (if name p = ''a.f90'' then [''ka'' \<mapsto> 7] else [''kb'' \<mapsto> 8])), None)"

definition ex_state :: build_state where
  "ex_state = \<lparr>files = Map.empty, current_prebuilds = {}, psyclone_output = [], error_log = []\<rparr>"

section \<open>The Psyclone step: making an x90 parsable\<close>

text \<open>
  A text is a list of characters: what reading a file in text mode gives, and what is
  written back. \<open>isspace\<close> is Python's \<open>str.isspace\<close> on the code points
  below 256, which is also what \<open>\s\<close> matches in a regular expression on \<open>str\<close>: the
  characters 9 to 13, 28 to 32, 133 and 160.
\<close>

definition isspace :: "char \<Rightarrow> bool" where
  "isspace c =
     (c \<in> set [CHR 0x09, CHR 0x0A, CHR 0x0B, CHR 0x0C, CHR 0x0D, CHR 0x1C, CHR 0x1D, CHR 0x1E,
               CHR 0x1F, CHR 0x20, CHR 0x85, CHR 0xA0])"

text \<open>
  \<open>readlines\<close> of a text file: the lines of the text, each with its newline; the last
  line has none when the text does not end with one.
\<close>

fun readlines :: "string \<Rightarrow> string list" where
  "readlines [] = []"
| "readlines (c # cs) =
     (if c = CHR 0x0A then [c] # readlines cs
      else (case readlines cs of [] \<Rightarrow> [[c]] | l # ls \<Rightarrow> (c # l) # ls))"

text \<open>\<open>line.lstrip().startswith('!')\<close>.\<close>

definition is_comment_line :: "string \<Rightarrow> bool" where
  "is_comment_line line =
     (case dropWhile isspace line of [] \<Rightarrow> False | c # cs \<Rightarrow> c = CHR ''!'')"

definition no_comment_lines :: "string \<Rightarrow> string list" where
  "no_comment_lines src = filter (\<lambda>line. \<not> is_comment_line line) (readlines src)"

text \<open>
  The regular expression \<open>NAMED_INVOKE\<close>. \<open>WHITE\<close> is \<open>[\s&]+\<close> and \<open>OPT_WHITE\<close> is
  \<open>[\s&]*\<close>; \<open>STRING\<close> is a single-quoted or double-quoted string without its own quote
  inside. In the pattern every starred class is followed by a literal character outside
  the class (or by the end of the pattern), so the greedy match of Python's matcher never
  backtracks to a shorter run: each piece below consumes the longest run.
\<close>

definition white :: "char \<Rightarrow> bool" where
  "white c = (isspace c \<or> c = CHR ''&'')"

definition literal :: "string \<Rightarrow> string \<Rightarrow> string option" where
  "literal lit s = (if take (length lit) s = lit then Some (drop (length lit) s) else None)"

definition WHITE :: "string \<Rightarrow> string option" where
  "WHITE s = (case s of [] \<Rightarrow> None | c # cs \<Rightarrow> if white c then Some (dropWhile white cs) else None)"

definition OPT_WHITE :: "string \<Rightarrow> string" where
  "OPT_WHITE s = dropWhile white s"

definition STRING :: "string \<Rightarrow> string option" where
  "STRING s =
     (case s of
        [] \<Rightarrow> None
      | q # cs \<Rightarrow>
          if q = CHR 0x27 \<or> q = CHR 0x22
          then (case dropWhile (\<lambda>c. c \<noteq> q) cs of [] \<Rightarrow> None | c # rest \<Rightarrow> Some rest)
          else None)"

text \<open>
  A match of \<open>NAMED_INVOKE\<close> at the start of a text: the rest of the text after the match,
  or \<open>None\<close> when the pattern does not match there.
\<close>

definition NAME_KEYWORD :: "string \<Rightarrow> string option" where
  "NAME_KEYWORD s =
     Option.bind (literal ''name'' s) (\<lambda>s.
     Option.bind (literal ''='' (OPT_WHITE s)) (\<lambda>s.
     Option.bind (STRING (OPT_WHITE s)) (\<lambda>s.
     Option.bind (literal '','' (OPT_WHITE s)) (\<lambda>s.
     Some (OPT_WHITE s)))))"

definition NAMED_INVOKE :: "string \<Rightarrow> string option" where
  "NAMED_INVOKE s =
     Option.bind (literal ''call'' s) (\<lambda>s.
     Option.bind (WHITE s) (\<lambda>s.
     Option.bind (literal ''invoke'' s) (\<lambda>s.
     Option.bind (literal ''('' (OPT_WHITE s)) (\<lambda>s.
     NAME_KEYWORD (OPT_WHITE s)))))"

lemma literal_length: "literal lit s = Some r \<Longrightarrow> length r + length lit = length s"
proof -
  assume "literal lit s = Some r"
  then have t: "take (length lit) s = lit" and r: "r = drop (length lit) s"
    by (auto simp: literal_def split: if_splits)
  from t have "length lit \<le> length s"
    by (metis length_take min.cobounded1)
  with r show ?thesis by simp
qed

lemma OPT_WHITE_length: "length (OPT_WHITE s) \<le> length s"
  by (simp add: OPT_WHITE_def length_dropWhile_le)

lemma WHITE_length: "WHITE s = Some r \<Longrightarrow> length r < length s"
  by (auto simp: WHITE_def split: list.splits if_splits intro: le_imp_less_Suc length_dropWhile_le)

lemma STRING_length: "STRING s = Some r \<Longrightarrow> length r < length s"
proof -
  assume a: "STRING s = Some r"
  then obtain q cs c where s: "s = q # cs" and d: "dropWhile (\<lambda>c. c \<noteq> q) cs = c # r"
    by (auto simp: STRING_def split: list.splits if_splits)
  have "length (dropWhile (\<lambda>c. c \<noteq> q) cs) \<le> length cs"
    by (rule length_dropWhile_le)
  with s d show ?thesis by simp
qed

lemma NAME_KEYWORD_length: "NAME_KEYWORD s = Some r \<Longrightarrow> length r < length s"
proof -
  assume "NAME_KEYWORD s = Some r"
  then obtain s1 s2 s3 s4 where 1: "literal ''name'' s = Some s1"
    and 2: "literal ''='' (OPT_WHITE s1) = Some s2"
    and 3: "STRING (OPT_WHITE s2) = Some s3"
    and 4: "literal '','' (OPT_WHITE s3) = Some s4"
    and r: "r = OPT_WHITE s4"
    by (auto simp: NAME_KEYWORD_def bind_eq_Some_conv)
  from literal_length [OF 1] literal_length [OF 2] STRING_length [OF 3] literal_length [OF 4]
    OPT_WHITE_length [of s1] OPT_WHITE_length [of s2] OPT_WHITE_length [of s3]
    OPT_WHITE_length [of s4] r
  show ?thesis by simp
qed

lemma NAMED_INVOKE_length: "NAMED_INVOKE s = Some r \<Longrightarrow> length r < length s"
proof -
  assume "NAMED_INVOKE s = Some r"
  then obtain s1 s2 s3 s4 where 1: "literal ''call'' s = Some s1"
    and 2: "WHITE s1 = Some s2"
    and 3: "literal ''invoke'' s2 = Some s3"
    and 4: "literal ''('' (OPT_WHITE s3) = Some s4"
    and 5: "NAME_KEYWORD (OPT_WHITE s4) = Some r"
    by (auto simp: NAMED_INVOKE_def bind_eq_Some_conv)
  from literal_length [OF 1] WHITE_length [OF 2] literal_length [OF 3] literal_length [OF 4]
    NAME_KEYWORD_length [OF 5] OPT_WHITE_length [of s3] OPT_WHITE_length [of s4]
  show ?thesis by simp
qed

text \<open>
  \<open>_x90_compliance_pattern.sub(repl, src)\<close>: scanning from the left, each match is replaced
  by \<open>call invoke(\<close> and the scan goes on after the match; a character at which the pattern
  does not match is copied. A match is never empty.
\<close>

function x90_sub :: "string \<Rightarrow> string" where
  "x90_sub [] = []"
| "x90_sub (c # cs) =
     (case NAMED_INVOKE (c # cs) of
        Some rest \<Rightarrow> ''call invoke('' @ x90_sub rest
      | None \<Rightarrow> c # x90_sub cs)"
  by pat_completeness auto
termination
  by (relation "measure length") (auto dest: NAMED_INVOKE_length)

text \<open>
  The text that \<open>make_parsable_x90\<close> writes for the text it reads: the comment lines are
  removed, then the name keywords.
\<close>

definition make_parsable_text :: "string \<Rightarrow> string" where
  "make_parsable_text text = x90_sub (concat (no_comment_lines text))"

text \<open>
  The texts that \<open>NAMED_INVOKE\<close> describes, as the spec words them: \<open>call\<close>, \<open>invoke\<close>, an
  opening parenthesis, \<open>name\<close>, an equals sign, a string in single or double quotes and a
  comma, separated by runs of whitespace or \<open>&\<close> (at least one character between \<open>call\<close>
  and \<open>invoke\<close>), with such a run after the comma.
\<close>

definition quoted :: "string \<Rightarrow> bool" where
  "quoted s =
     (\<exists>q body. (q = CHR 0x27 \<or> q = CHR 0x22) \<and> q \<notin> set body \<and> s = q # body @ [q])"

definition named_invoke_text :: "string \<Rightarrow> bool" where
  "named_invoke_text m =
     (\<exists>w1 w2 w3 w4 w5 w6 w7 str.
        list_all white w1 \<and> w1 \<noteq> [] \<and> list_all white w2 \<and> list_all white w3 \<and> list_all white w4
        \<and> list_all white w5 \<and> list_all white w6 \<and> list_all white w7 \<and> quoted str
        \<and> m = ''call'' @ w1 @ ''invoke'' @ w2 @ ''('' @ w3 @ ''name'' @ w4 @ ''='' @ w5 @ str
                @ w6 @ '','' @ w7)"

text \<open>
  A text has no comment line: reading it from the left, no \<open>!\<close> is found while only
  whitespace has been read since the start of the line. The flag says whether the text
  starts at the start of a line.
\<close>

fun comment_free :: "bool \<Rightarrow> string \<Rightarrow> bool" where
  "comment_free at_start [] = True"
| "comment_free at_start (c # cs) =
     (if c = CHR 0x0A then comment_free True cs
      else if at_start then c \<noteq> CHR ''!'' \<and> comment_free (isspace c) cs
      else comment_free False cs)"

text \<open>
  A list of lines as \<open>readlines\<close> returns it: no line is empty, a newline is only at the
  end of a line, and every line but the last ends with one.
\<close>

fun lines_ok :: "string list \<Rightarrow> bool" where
  "lines_ok [] = True"
| "lines_ok [l] = (l \<noteq> [] \<and> CHR 0x0A \<notin> set (butlast l))"
| "lines_ok (l # ls) = (l \<noteq> [] \<and> CHR 0x0A \<notin> set (butlast l) \<and> last l = CHR 0x0A \<and> lines_ok ls)"

text \<open>No match of \<open>NAMED_INVOKE\<close> starts anywhere in a text.\<close>

fun no_named_invoke :: "string \<Rightarrow> bool" where
  "no_named_invoke [] = True"
| "no_named_invoke (c # cs) = (NAMED_INVOKE (c # cs) = None \<and> no_named_invoke cs)"

section \<open>The Psyclone step: x90 analysis\<close>

text \<open>
  \<open>make_parsable_x90\<close>: reads the file (which must be there), makes the parsable text and
  writes it beside the source, with the suffix \<open>.parsable_x90\<close>.
\<close>

definition make_parsable_x90 :: "path \<Rightarrow> build_state \<Rightarrow> (py_error + path) \<times> build_state" where
  "make_parsable_x90 x90_path st =
     (case files st x90_path of
        None \<Rightarrow> (Inl FileNotFoundError, st)
      | Some src \<Rightarrow>
          (case with_suffix x90_path ''.parsable_x90'' of
             Inl e \<Rightarrow> (Inl e, st)
           | Inr out_path \<Rightarrow>
               (Inr out_path, st\<lparr>files := (files st)(out_path \<mapsto> make_parsable_text src)\<rparr>)))"

text \<open>
  \<open>run_mp\<close> of a function that changes the state, run in the caller as when multiprocessing
  is off: the items are processed in their order, and an exception that the function
  raises ends the map.
\<close>

fun run_mp :: "('a \<Rightarrow> build_state \<Rightarrow> (py_error + 'b) \<times> build_state) \<Rightarrow> 'a list \<Rightarrow> build_state
    \<Rightarrow> (py_error + 'b list) \<times> build_state" where
  "run_mp func [] st = (Inr [], st)"
| "run_mp func (item # items) st =
     (case func item st of
        (Inl e, st1) \<Rightarrow> (Inl e, st1)
      | (Inr result, st1) \<Rightarrow>
          (case run_mp func items st1 of
             (Inl e, st2) \<Rightarrow> (Inl e, st2)
           | (Inr results, st2) \<Rightarrow> (Inr (result # results), st2)))"

text \<open>
  Modelled from the spec: \<open>check_for_errors\<close> (of \<open>fab.steps\<close>) is not among the sources;
  the spec has it aggregate the errors returned in-band and raise if any are present.
\<close>

definition check_for_errors :: "(py_error + 'a) list \<Rightarrow> py_error + unit" where
  "check_for_errors results =
     (let exceptions = by_type_Exception results
      in if exceptions \<noteq> [] then Inl (RuntimeError exceptions) else Inr ())"

text \<open>
  The dictionary comprehension that keys each result by the path of its file with the
  suffix \<open>.x90\<close>, as the list of its items; \<open>with_suffix\<close> can raise.
\<close>

fun x90_items :: "AnalysedX90 list \<Rightarrow> py_error + (path \<times> AnalysedX90) list" where
  "x90_items [] = Inr []"
| "x90_items (result # results) =
     (case with_suffix (fpath result) ''.x90'' of
        Inl e \<Rightarrow> Inl e
      | Inr p \<Rightarrow>
          (case x90_items results of
             Inl e \<Rightarrow> Inl e
           | Inr items \<Rightarrow> Inr ((p, result) # items)))"

text \<open>
  \<open>Psyclone._analyse_x90s\<close>. The x90 analyser's \<open>run\<close> is a parameter: a function of the
  path it is given and of the text of the file there, which returns an analysis or an
  exception together with its prebuild file or \<open>None\<close>. \<open>file_checksum\<close> reads a file, which
  must be there, and hashes its text with the parameter \<open>checksum\<close>. In the dictionary a
  later result replaces an earlier one with the same key.
\<close>

definition analyse_x90s ::
  "(string \<Rightarrow> int) \<Rightarrow> (path \<Rightarrow> string option \<Rightarrow> (py_error + AnalysedX90) \<times> path option)
     \<Rightarrow> path list \<Rightarrow> build_state \<Rightarrow> (py_error + (path \<rightharpoonup> AnalysedX90)) \<times> build_state" where
  "analyse_x90s checksum x90_analyser_run x90s st =
     (case run_mp make_parsable_x90 x90s st of
        (Inl e, st1) \<Rightarrow> (Inl e, st1)
      | (Inr parsable_x90s, st1) \<Rightarrow>
          let x90_results = map (\<lambda>p. x90_analyser_run p (files st1 p)) parsable_x90s;
              x90_analyses = map fst x90_results;
              x90_artefacts = map snd x90_results
          in case check_for_errors x90_analyses of
               Inl e \<Rightarrow> (Inl e, st1)
             | Inr u \<Rightarrow>
                 let prebuild_files = by_type_Path x90_artefacts;
                     st2 = add_current_prebuilds prebuild_files st1
                 in case x90_items (by_type_Analysed x90_analyses) of
                      Inl e \<Rightarrow> (Inl e, st2)
                    | Inr items \<Rightarrow>
                        if \<exists>p \<in> set (map fst items). files st2 p = None
                        then (Inl FileNotFoundError, st2)
                        else (Inr (map_of (rev (map (\<lambda>(p, r). (p, r\<lparr>file_hash := checksum (the (files st2 p))\<rparr>))
                                    items))), st2))"

text \<open>
  An example for x90 analysis: one x90 file with a named invoke, the length of a text as
  its checksum, and an analyser that records the checksum of the text it is given.
\<close>

definition ex_x90 :: path where
  "ex_x90 = Path [''src''] ''alg.x90''"

definition ex_checksum :: "string \<Rightarrow> int" where
  "ex_checksum s = int (length s)"

definition ex_x90_analyser :: "path \<Rightarrow> string option \<Rightarrow> (py_error + AnalysedX90) \<times> path option" where
  "ex_x90_analyser p src =
     (Inr \<lparr>fpath = p, file_hash = (case src of None \<Rightarrow> 0 | Some s \<Rightarrow> ex_checksum s),
           kernel_deps = {|''k''|}\<rparr>,
      Some (Path [''out'', ''_prebuild''] (name p @ ''.an'')))"

definition ex_x90_state :: build_state where
  "ex_x90_state =
     \<lparr>files = [ex_x90 \<mapsto> ''call invoke( name = \"m\", k(...))''],
      current_prebuilds = {}, psyclone_output = [], error_log = []\<rparr>"

text \<open>
  Analysers that fail: a Fortran analyser that analyses \<open>a.f90\<close> and fails on any other
  file, and an x90 analyser that fails on every file.
\<close>

definition ex_run_failing :: "path \<Rightarrow> (py_error + AnalysedFortran) \<times> path option" where
  "ex_run_failing p =
     (if name p = ''a.f90'' then (Inr (ex_kernel_file p [''ka'' \<mapsto> 7]), None)
      else (Inl (AnalyseError ''parse error''), None))"

definition ex_x90_failing :: "path \<Rightarrow> string option \<Rightarrow> (py_error + AnalysedX90) \<times> path option" where
  "ex_x90_failing p src = (Inl (AnalyseError ''parse error''), None)"

section \<open>The Psyclone step: prebuilds of the generated code\<close>

text \<open>Python's \<open>str\<close> of an integer, as an f-string renders it: decimal, with a sign when negative.\<close>

fun str_nat :: "nat \<Rightarrow> string" where
  "str_nat n =
     (if n < 10 then [''0123456789'' ! n]
      else str_nat (n div 10) @ [''0123456789'' ! (n mod 10)])"

declare str_nat.simps [simp del]

definition str_int :: "int \<Rightarrow> string" where
  "str_int i = (if i < 0 then CHR ''-'' # str_nat (nat (- i)) else str_nat (nat i))"

text \<open>The number a string of decimal digits stands for.\<close>

definition decimal_value :: "string \<Rightarrow> nat" where
  "decimal_value s = foldl (\<lambda>a c. 10 * a + (of_char c - 48)) 0 s"

text \<open>
  Modelled from the spec: the rendering of a hash in a prebuild file name according to
  the spec's section 6, a lowercase hexadecimal u32. It is not a function of the sources.
\<close>

fun hex_nat :: "nat \<Rightarrow> string" where
  "hex_nat n =
     (if n < 16 then [''0123456789abcdef'' ! n]
      else hex_nat (n div 16) @ [''0123456789abcdef'' ! (n mod 16)])"

declare hex_nat.simps [simp del]

definition hex_u32 :: "int \<Rightarrow> string" where
  "hex_u32 h = hex_nat (nat (h mod 2 ^ 32))"

text \<open>\<open>Psyclone._get_prebuild_paths\<close>.\<close>

definition get_prebuild_paths :: "path \<Rightarrow> path \<Rightarrow> path \<Rightarrow> int \<Rightarrow> path \<times> path" where
  "get_prebuild_paths prebuild_folder modified_alg generated prebuild_hash =
     (let prebuilt_alg = path_join prebuild_folder
            (stem modified_alg @ ''.'' @ str_int prebuild_hash @ suffix modified_alg);
          prebuilt_gen = path_join prebuild_folder
            (stem generated @ ''.'' @ str_int prebuild_hash @ suffix generated)
      in (prebuilt_alg, prebuilt_gen))"














chapter \<open>Properties\<close>

section \<open>The prebuild hash\<close>

text \<open>
  C1, as amended. When the file's analysis is in the payload and each of its kernel
  dependencies has an entry in the all-kernel-hashes mapping, with pairwise distinct
  hashes, the prebuild hash is the plain integer sum of the file hash, the
  dependencies' hashes, the transformation-script hash and the checksum of the
  command-line arguments. The sum is not reduced modulo \<open>2^32\<close>.
\<close>

theorem gen_prebuild_hash_sum:
  assumes "analysed_x90 mp_payload x90_file = Some a"
    and "\<forall>k \<in> fset (kernel_deps a). all_kernel_hashes mp_payload k \<noteq> None"
    and "inj_on (\<lambda>k. the (all_kernel_hashes mp_payload k)) (fset (kernel_deps a))"
  shows "gen_prebuild_hash string_checksum str cli_args x90_file mp_payload =
           Inr (file_hash a
                + (\<Sum>k \<in> fset (kernel_deps a). the (all_kernel_hashes mp_payload k))
                + transformation_script_hash mp_payload
                + string_checksum (str cli_args))"
proof -
  have "sum id ((\<lambda>k. the (all_kernel_hashes mp_payload k)) ` fset (kernel_deps a))
          = (\<Sum>k \<in> fset (kernel_deps a). the (all_kernel_hashes mp_payload k))"
    using assms(3) by (simp add: sum.reindex)
  with assms(1,2) show ?thesis
    by (simp add: gen_prebuild_hash_def)
qed

theorem gen_prebuild_hash_sum_witness:
  "analysed_x90
       \<lparr>analysed_x90 =
          [Path [''src''] ''alg.x90'' \<mapsto>
             \<lparr>fpath = Path [''src''] ''alg.parsable_x90'', file_hash = 3938659110,
              kernel_deps = {|''k1'', ''k2''|}\<rparr>],
        all_kernel_hashes = [''k1'' \<mapsto> 12345, ''k2'' \<mapsto> 23456],
        transformation_script_hash = 2310465506\<rparr>
       (Path [''src''] ''alg.x90'')
     = Some \<lparr>fpath = Path [''src''] ''alg.parsable_x90'', file_hash = 3938659110,
              kernel_deps = {|''k1'', ''k2''|}\<rparr>
   \<and> inj_on (\<lambda>k. the ([''k1'' \<mapsto> 12345 :: int, ''k2'' \<mapsto> 23456] k)) {''k1'', ''k2''}
   \<and> gen_prebuild_hash (\<lambda>s. 223132457) (\<lambda>args. ''[]'') [] (Path [''src''] ''alg.x90'')
       \<lparr>analysed_x90 =
          [Path [''src''] ''alg.x90'' \<mapsto>
             \<lparr>fpath = Path [''src''] ''alg.parsable_x90'', file_hash = 3938659110,
              kernel_deps = {|''k1'', ''k2''|}\<rparr>],
        all_kernel_hashes = [''k1'' \<mapsto> 12345, ''k2'' \<mapsto> 23456],
        transformation_script_hash = 2310465506\<rparr>
     = Inr 6472292874"
  using gen_prebuild_hash_sum
    [of "\<lparr>analysed_x90 =
          [Path [''src''] ''alg.x90'' \<mapsto>
             \<lparr>fpath = Path [''src''] ''alg.parsable_x90'', file_hash = 3938659110,
              kernel_deps = {|''k1'', ''k2''|}\<rparr>],
        all_kernel_hashes = [''k1'' \<mapsto> 12345, ''k2'' \<mapsto> 23456],
        transformation_script_hash = 2310465506\<rparr>"
        "Path [''src''] ''alg.x90''"
        "\<lparr>fpath = Path [''src''] ''alg.parsable_x90'', file_hash = 3938659110,
              kernel_deps = {|''k1'', ''k2''|}\<rparr>"
        "\<lambda>s. 223132457" "\<lambda>args. ''[]''" "[]"]
  by simp

text \<open>
  The spec's formula does not give the hash of the code at two inputs. With file hash
  \<open>3938659110\<close>, script hash \<open>2310465506\<close>, no kernel dependency and the checksum
  \<open>223132457\<close> of \<open>str([])\<close>, the code returns \<open>6472257073\<close>, which is not below
  \<open>2^32\<close>. With two dependencies whose hashes are both \<open>5\<close>, the code adds \<open>5\<close> once.
\<close>

theorem gen_prebuild_hash_counterexample:
  "gen_prebuild_hash (\<lambda>s. 223132457) (\<lambda>args. ''[]'') [] (Path [''src''] ''alg.x90'')
       \<lparr>analysed_x90 =
          [Path [''src''] ''alg.x90'' \<mapsto>
             \<lparr>fpath = Path [''src''] ''alg.parsable_x90'', file_hash = 3938659110,
              kernel_deps = {||}\<rparr>],
        all_kernel_hashes = Map.empty,
        transformation_script_hash = 2310465506\<rparr>
     \<noteq> Inr (spec_combo (\<lambda>s. 223132457) (\<lambda>args. ''[]'') []
              \<lparr>fpath = Path [''src''] ''alg.parsable_x90'', file_hash = 3938659110,
               kernel_deps = {||}\<rparr>
              Map.empty 2310465506)
   \<and> gen_prebuild_hash (\<lambda>s. 0) (\<lambda>args. ''[]'') [] (Path [''src''] ''alg.x90'')
       \<lparr>analysed_x90 =
          [Path [''src''] ''alg.x90'' \<mapsto>
             \<lparr>fpath = Path [''src''] ''alg.parsable_x90'', file_hash = 1,
              kernel_deps = {|''k1'', ''k2''|}\<rparr>],
        all_kernel_hashes = [''k1'' \<mapsto> 5, ''k2'' \<mapsto> 5],
        transformation_script_hash = 0\<rparr>
     \<noteq> Inr (spec_combo (\<lambda>s. 0) (\<lambda>args. ''[]'') []
              \<lparr>fpath = Path [''src''] ''alg.parsable_x90'', file_hash = 1,
               kernel_deps = {|''k1'', ''k2''|}\<rparr>
              [''k1'' \<mapsto> 5, ''k2'' \<mapsto> 5] 0)"
  by (simp add: gen_prebuild_hash_def spec_combo_def combine_def)

section \<open>The combo hashes of the compile scheduler\<close>




section \<open>Kernel roots\<close>

text \<open>
  C3. With two kernel roots or more, \<open>set\<close> gets more than one argument: kernel analysis
  raises \<open>TypeError\<close> before it has analysed a file, whatever the roots contain.
\<close>

theorem analyse_kernels_two_roots:
  "analyse_kernels file_walk fortran_analyser_run prebuild_folder (root1 # root2 # roots) st
     = (Inl TypeError, st)"
  by (simp add: analyse_kernels_def set_star_chain_def)

section \<open>Duplicate kernel names\<close>

lemma gather_kernel_hashes_Inr:
  "gather_kernel_hashes acc afs = Inr m \<Longrightarrow>
     dom m = dom acc \<union> (\<Union>af \<in> set afs. dom (psyclone_kernels af))
     \<and> acc \<subseteq>\<^sub>m m \<and> (\<forall>af \<in> set afs. psyclone_kernels af \<subseteq>\<^sub>m m)"
proof (induction afs arbitrary: acc)
  case Nil
  then show ?case by simp
next
  case (Cons af afs)
  from Cons.prems have d: "dom (psyclone_kernels af) \<inter> dom acc = {}"
    and g: "gather_kernel_hashes (acc ++ psyclone_kernels af) afs = Inr m"
    by (auto split: if_splits)
  from Cons.IH [OF g] have
    1: "dom m = dom (acc ++ psyclone_kernels af) \<union> (\<Union>af \<in> set afs. dom (psyclone_kernels af))"
    and 2: "acc ++ psyclone_kernels af \<subseteq>\<^sub>m m"
    and 3: "\<forall>af \<in> set afs. psyclone_kernels af \<subseteq>\<^sub>m m"
    by auto
  have "acc \<subseteq>\<^sub>m acc ++ psyclone_kernels af"
    using d by (simp add: map_add_comm map_le_iff_map_add_commute Int_commute)
  with 2 have 4: "acc \<subseteq>\<^sub>m m" by (metis map_le_trans)
  have "psyclone_kernels af \<subseteq>\<^sub>m acc ++ psyclone_kernels af"
    by simp
  with 2 have 5: "psyclone_kernels af \<subseteq>\<^sub>m m" by (metis map_le_trans)
  from 1 have 6: "dom m = dom acc \<union> (\<Union>af \<in> set (af # afs). dom (psyclone_kernels af))"
    by auto
  from 3 4 5 6 show ?case by simp
qed

lemma gather_kernel_hashes_fails:
  "gather_kernel_hashes acc afs = Inl e \<longleftrightarrow>
     e = AssertionError \<and>
     \<not> (sorted_wrt (\<lambda>a b. dom (psyclone_kernels a) \<inter> dom (psyclone_kernels b) = {}) afs
        \<and> (\<forall>af \<in> set afs. dom (psyclone_kernels af) \<inter> dom acc = {}))"
proof (induction afs arbitrary: acc)
  case Nil
  then show ?case by simp
next
  case (Cons af afs)
  have key: "(\<forall>b \<in> set afs. dom (psyclone_kernels b) \<inter> dom (acc ++ psyclone_kernels af) = {})
     \<longleftrightarrow> (\<forall>b \<in> set afs. dom (psyclone_kernels af) \<inter> dom (psyclone_kernels b) = {})
        \<and> (\<forall>b \<in> set afs. dom (psyclone_kernels b) \<inter> dom acc = {})"
    by (simp only: dom_map_add) blast
  show ?case
  proof (cases "dom (psyclone_kernels af) \<inter> dom acc = {}")
    case True
    then show ?thesis using Cons.IH [of "acc ++ psyclone_kernels af"] key
      by simp blast
  next
    case False
    then show ?thesis by auto
  qed
qed

lemma analyse_kernels_one_root:
  "fst (analyse_kernels file_walk fortran_analyser_run prebuild_folder [root] st)
     = gather_kernel_hashes Map.empty
         (analysed_kernel_files file_walk fortran_analyser_run prebuild_folder root)"
  by (simp add: analyse_kernels_def set_star_chain_def analysed_kernel_files_def Let_def)

text \<open>
  C8. Kernel analysis of one root: if two of the analysed files define a kernel of the
  same name, it fails (the \<open>assert\<close> raises \<open>AssertionError\<close>); if the kernel names of
  the analysed files are pairwise disjoint, it returns a mapping that has every
  kernel hash of every analysed file, and nothing else.
\<close>

theorem analyse_kernels_duplicates:
  "((\<exists>i j. i < j \<and> j < length (analysed_kernel_files file_walk fortran_analyser_run prebuild_folder root)
        \<and> dom (psyclone_kernels (analysed_kernel_files file_walk fortran_analyser_run prebuild_folder root ! i))
          \<inter> dom (psyclone_kernels (analysed_kernel_files file_walk fortran_analyser_run prebuild_folder root ! j))
          \<noteq> {})
      \<longrightarrow> fst (analyse_kernels file_walk fortran_analyser_run prebuild_folder [root] st)
            = Inl AssertionError)
   \<and> ((\<forall>i j. i < j \<and> j < length (analysed_kernel_files file_walk fortran_analyser_run prebuild_folder root)
        \<longrightarrow> dom (psyclone_kernels (analysed_kernel_files file_walk fortran_analyser_run prebuild_folder root ! i))
          \<inter> dom (psyclone_kernels (analysed_kernel_files file_walk fortran_analyser_run prebuild_folder root ! j))
          = {})
      \<longrightarrow> (\<exists>m. fst (analyse_kernels file_walk fortran_analyser_run prebuild_folder [root] st) = Inr m
            \<and> (\<forall>af \<in> set (analysed_kernel_files file_walk fortran_analyser_run prebuild_folder root).
                  \<forall>k h. psyclone_kernels af k = Some h \<longrightarrow> m k = Some h)
            \<and> dom m = (\<Union>af \<in> set (analysed_kernel_files file_walk fortran_analyser_run prebuild_folder root).
                         dom (psyclone_kernels af))))"
proof -
  let ?afs = "analysed_kernel_files file_walk fortran_analyser_run prebuild_folder root"
  let ?r = "fst (analyse_kernels file_walk fortran_analyser_run prebuild_folder [root] st)"
  let ?disj = "sorted_wrt (\<lambda>a b. dom (psyclone_kernels a) \<inter> dom (psyclone_kernels b) = {}) ?afs"
  have r: "?r = gather_kernel_hashes Map.empty ?afs"
    by (rule analyse_kernels_one_root)
  have disj: "?disj \<longleftrightarrow> (\<forall>i j. i < j \<and> j < length ?afs
        \<longrightarrow> dom (psyclone_kernels (?afs ! i)) \<inter> dom (psyclone_kernels (?afs ! j)) = {})"
    by (auto simp: sorted_wrt_iff_nth_less)
  have fails: "?r = Inl AssertionError" if "\<not> ?disj"
    using that gather_kernel_hashes_fails [of Map.empty ?afs AssertionError] r by simp
  have ok: "\<exists>m. ?r = Inr m \<and> (\<forall>af \<in> set ?afs. \<forall>k h. psyclone_kernels af k = Some h \<longrightarrow> m k = Some h)
            \<and> dom m = (\<Union>af \<in> set ?afs. dom (psyclone_kernels af))" if "?disj"
  proof -
    have "\<And>e. ?r \<noteq> Inl e"
      using that gather_kernel_hashes_fails [of Map.empty ?afs] r by simp
    then obtain m where m: "?r = Inr m" by (cases ?r) auto
    from gather_kernel_hashes_Inr [of Map.empty ?afs m] m r
    have "dom m = (\<Union>af \<in> set ?afs. dom (psyclone_kernels af))"
      and "\<forall>af \<in> set ?afs. psyclone_kernels af \<subseteq>\<^sub>m m"
      by auto
    then show ?thesis using m by (auto simp: map_le_def dom_def)
  qed
  from fails ok disj show ?thesis by blast
qed

theorem analyse_kernels_duplicates_witness:
  "fst (analyse_kernels ex_walk ex_run_same (Path [''out''] ''_prebuild'') [Path [] ''k''] ex_state)
     = Inl AssertionError
   \<and> (\<exists>m. fst (analyse_kernels ex_walk ex_run_distinct (Path [''out''] ''_prebuild'') [Path [] ''k''] ex_state)
        = Inr m \<and> m ''ka'' = Some 7 \<and> m ''kb'' = Some 8)"
proof -
  let ?pf = "Path [''out''] ''_prebuild''"
  let ?root = "Path [] ''k''"
  have dup: "analysed_kernel_files ex_walk ex_run_same ?pf ?root
             = [ex_kernel_file (Path [''k''] ''a.f90'') [''kern_type'' \<mapsto> 7],
                ex_kernel_file (Path [''k''] ''b.f90'') [''kern_type'' \<mapsto> 7]]"
    by (simp add: analysed_kernel_files_def suffix_filter_def suffix_def name_suffix_def
        ex_walk_def ex_run_same_def)
  have ok: "analysed_kernel_files ex_walk ex_run_distinct ?pf ?root
             = [ex_kernel_file (Path [''k''] ''a.f90'') [''ka'' \<mapsto> 7],
                ex_kernel_file (Path [''k''] ''b.f90'') [''kb'' \<mapsto> 8]]"
    by (simp add: analysed_kernel_files_def suffix_filter_def suffix_def name_suffix_def
        ex_walk_def ex_run_distinct_def)
  have "0 < (1::nat) \<and> 1 < length (analysed_kernel_files ex_walk ex_run_same ?pf ?root)
        \<and> dom (psyclone_kernels (analysed_kernel_files ex_walk ex_run_same ?pf ?root ! 0))
          \<inter> dom (psyclone_kernels (analysed_kernel_files ex_walk ex_run_same ?pf ?root ! 1)) \<noteq> {}"
    by (simp add: dup ex_kernel_file_def)
  then have "\<exists>i j. i < j \<and> j < length (analysed_kernel_files ex_walk ex_run_same ?pf ?root)
        \<and> dom (psyclone_kernels (analysed_kernel_files ex_walk ex_run_same ?pf ?root ! i))
          \<inter> dom (psyclone_kernels (analysed_kernel_files ex_walk ex_run_same ?pf ?root ! j)) \<noteq> {}"
    by (intro exI)
  with analyse_kernels_duplicates [of ex_walk ex_run_same ?pf ?root ex_state, THEN conjunct1]
  have 1: "fst (analyse_kernels ex_walk ex_run_same ?pf [?root] ex_state) = Inl AssertionError"
    by (rule mp)
  have "sorted_wrt (\<lambda>a b. dom (psyclone_kernels a) \<inter> dom (psyclone_kernels b) = {})
          (analysed_kernel_files ex_walk ex_run_distinct ?pf ?root)"
    by (simp add: ok ex_kernel_file_def)
  then have "\<forall>i j. i < j \<and> j < length (analysed_kernel_files ex_walk ex_run_distinct ?pf ?root)
        \<longrightarrow> dom (psyclone_kernels (analysed_kernel_files ex_walk ex_run_distinct ?pf ?root ! i))
          \<inter> dom (psyclone_kernels (analysed_kernel_files ex_walk ex_run_distinct ?pf ?root ! j)) = {}"
    by (simp add: sorted_wrt_iff_nth_less)
  with analyse_kernels_duplicates [of ex_walk ex_run_distinct ?pf ?root ex_state, THEN conjunct2]
  have "\<exists>m. fst (analyse_kernels ex_walk ex_run_distinct ?pf [?root] ex_state) = Inr m
            \<and> (\<forall>af \<in> set (analysed_kernel_files ex_walk ex_run_distinct ?pf ?root).
                  \<forall>k h. psyclone_kernels af k = Some h \<longrightarrow> m k = Some h)
            \<and> dom m = (\<Union>af \<in> set (analysed_kernel_files ex_walk ex_run_distinct ?pf ?root).
                         dom (psyclone_kernels af))"
    by (rule mp)
  then obtain m where m: "fst (analyse_kernels ex_walk ex_run_distinct ?pf [?root] ex_state) = Inr m"
    and all: "\<forall>af \<in> set (analysed_kernel_files ex_walk ex_run_distinct ?pf ?root).
                  \<forall>k h. psyclone_kernels af k = Some h \<longrightarrow> m k = Some h"
    by (elim exE conjE)
  have "ex_kernel_file (Path [''k''] ''a.f90'') [''ka'' \<mapsto> 7]
          \<in> set (analysed_kernel_files ex_walk ex_run_distinct ?pf ?root)"
    by (simp add: ok)
  with all have "\<forall>k h. psyclone_kernels (ex_kernel_file (Path [''k''] ''a.f90'') [''ka'' \<mapsto> 7]) k = Some h
                   \<longrightarrow> m k = Some h"
    by (rule bspec)
  then have ka: "m ''ka'' = Some 7"
    by (simp add: ex_kernel_file_def)
  have "ex_kernel_file (Path [''k''] ''b.f90'') [''kb'' \<mapsto> 8]
          \<in> set (analysed_kernel_files ex_walk ex_run_distinct ?pf ?root)"
    by (simp add: ok)
  with all have "\<forall>k h. psyclone_kernels (ex_kernel_file (Path [''k''] ''b.f90'') [''kb'' \<mapsto> 8]) k = Some h
                   \<longrightarrow> m k = Some h"
    by (rule bspec)
  then have kb: "m ''kb'' = Some 8"
    by (simp add: ex_kernel_file_def)
  from m ka kb have "fst (analyse_kernels ex_walk ex_run_distinct ?pf [?root] ex_state) = Inr m
      \<and> m ''ka'' = Some 7 \<and> m ''kb'' = Some 8"
    by (intro conjI)
  then have "\<exists>m. fst (analyse_kernels ex_walk ex_run_distinct ?pf [?root] ex_state) = Inr m
      \<and> m ''ka'' = Some 7 \<and> m ''kb'' = Some 8"
    by (rule exI [where x = m])
  with 1 show ?thesis by (rule conjI)
qed

section \<open>The text of a parsable x90\<close>

subsection \<open>Lines and comment lines\<close>

lemma concat_readlines: "concat (readlines t) = t"
  by (induction t) (auto split: list.splits)

lemma readlines_Nil_iff: "readlines t = [] \<longleftrightarrow> t = []"
  by (cases t) (auto split: list.splits)

lemma isspace_newline: "isspace (CHR 0x0A)"
  by (simp add: isspace_def)

lemma not_isspace_bang: "\<not> isspace (CHR ''!'')"
  by (simp add: isspace_def)

lemma is_comment_line_Cons:
  "is_comment_line (c # l) = (if isspace c then is_comment_line l else c = CHR ''!'')"
  by (simp add: is_comment_line_def)

lemma is_comment_line_Nil: "\<not> is_comment_line []"
  by (simp add: is_comment_line_def)

lemma comment_free_readlines:
  "(comment_free True t \<longleftrightarrow> (\<forall>l \<in> set (readlines t). \<not> is_comment_line l))
   \<and> (comment_free False t \<longleftrightarrow> (\<forall>l \<in> set (tl (readlines t)). \<not> is_comment_line l))"
proof (induction t)
  case Nil
  then show ?case by simp
next
  case (Cons c cs)
  show ?case
  proof (cases "c = CHR 0x0A")
    case True
    with Cons show ?thesis
      by (simp add: is_comment_line_Cons is_comment_line_Nil isspace_newline)
  next
    case False
    show ?thesis
    proof (cases "readlines cs")
      case Nil
      then have "cs = []" by (simp add: readlines_Nil_iff)
      with False show ?thesis
        using not_isspace_bang by (auto simp: is_comment_line_Cons is_comment_line_Nil)
    next
      case (Cons l ls)
      with False Cons.IH show ?thesis
        by (auto simp: is_comment_line_Cons not_isspace_bang)
    qed
  qed
qed

lemma readlines_line:
  "CHR 0x0A \<notin> set b \<Longrightarrow> readlines (b @ CHR 0x0A # rest) = (b @ [CHR 0x0A]) # readlines rest"
  by (induction b) auto

lemma readlines_last: "CHR 0x0A \<notin> set l \<Longrightarrow> l \<noteq> [] \<Longrightarrow> readlines l = [l]"
proof (induction l)
  case Nil
  then show ?case by simp
next
  case (Cons a l)
  show ?case
  proof (cases "l = []")
    case True
    with Cons.prems show ?thesis by simp
  next
    case False
    with Cons have "readlines l = [l]" by simp
    with Cons.prems show ?thesis by auto
  qed
qed

lemma lines_ok_Cons:
  "l \<noteq> [] \<Longrightarrow> CHR 0x0A \<notin> set (butlast l) \<Longrightarrow> last l = CHR 0x0A \<Longrightarrow> lines_ok ls \<Longrightarrow> lines_ok (l # ls)"
  by (cases ls) auto

lemma lines_ok_head: "lines_ok (l # ls) \<Longrightarrow> l \<noteq> [] \<and> CHR 0x0A \<notin> set (butlast l)"
  by (cases ls) auto

lemma lines_ok_readlines: "lines_ok (readlines t)"
proof (induction t)
  case Nil
  then show ?case by simp
next
  case (Cons c cs)
  show ?case
  proof (cases "c = CHR 0x0A")
    case True
    with Cons show ?thesis by (auto intro: lines_ok_Cons)
  next
    case False
    show ?thesis
    proof (cases "readlines cs")
      case Nil
      with False show ?thesis by simp
    next
      case (Cons l ls)
      with False \<open>lines_ok (readlines cs)\<close> show ?thesis
        by (cases ls) (auto dest: lines_ok_head)
    qed
  qed
qed

lemma lines_ok_filter: "lines_ok ls \<Longrightarrow> lines_ok (filter P ls)"
proof (induction ls rule: lines_ok.induct)
  case 1
  then show ?case by simp
next
  case (2 l)
  then show ?case by simp
next
  case (3 l l' ls)
  then have "lines_ok (filter P (l' # ls))" by simp
  with 3 show ?case by (auto intro: lines_ok_Cons)
qed

lemma readlines_concat: "lines_ok ls \<Longrightarrow> readlines (concat ls) = ls"
proof (induction ls rule: lines_ok.induct)
  case 1
  then show ?case by simp
next
  case (2 l)
  then have l: "l \<noteq> []" "CHR 0x0A \<notin> set (butlast l)" by auto
  show ?case
  proof (cases "last l = CHR 0x0A")
    case True
    with l have "l = butlast l @ [CHR 0x0A]" by (metis append_butlast_last_id)
    then have "readlines l = readlines (butlast l @ CHR 0x0A # [])" by simp
    also have "\<dots> = (butlast l @ [CHR 0x0A]) # readlines []" using l by (rule_tac readlines_line)
    finally show ?thesis using \<open>l = butlast l @ [CHR 0x0A]\<close> by simp
  next
    case False
    with l have "CHR 0x0A \<notin> set l"
      by (metis append_butlast_last_id in_set_butlast_appendI insert_iff list.set(2) rotate1.simps(2) set_ConsD set_rotate1 empty_iff list.set(1) Un_iff set_append)
    with l show ?thesis by (simp add: readlines_last)
  qed
next
  case (3 l l' ls)
  then have ne: "l \<noteq> []" and la: "last l = CHR 0x0A" and nb: "CHR 0x0A \<notin> set (butlast l)"
    and ih: "readlines (concat (l' # ls)) = l' # ls"
    by auto
  from append_butlast_last_id [OF ne] la have "butlast l @ [CHR 0x0A] = l" by simp
  with nb obtain b where l: "l = b @ [CHR 0x0A]" and b: "CHR 0x0A \<notin> set b"
    by metis
  have "readlines (concat (l # l' # ls)) = readlines (b @ CHR 0x0A # concat (l' # ls))"
    by (simp add: l)
  also have "\<dots> = (b @ [CHR 0x0A]) # readlines (concat (l' # ls))"
    using b by (rule readlines_line)
  also have "\<dots> = l # l' # ls"
    using ih l by simp
  finally show ?case .
qed

lemma readlines_no_comment_lines: "readlines (concat (no_comment_lines t)) = no_comment_lines t"
  unfolding no_comment_lines_def by (intro readlines_concat lines_ok_filter lines_ok_readlines)

subsection \<open>The matcher finds the texts of the pattern\<close>

lemma literal_iff: "literal lit s = Some r \<longleftrightarrow> s = lit @ r"
proof
  assume "literal lit s = Some r"
  then have "take (length lit) s = lit" "r = drop (length lit) s"
    by (auto simp: literal_def split: if_splits)
  then show "s = lit @ r" using append_take_drop_id [of "length lit" s] by simp
next
  assume "s = lit @ r"
  then show "literal lit s = Some r" by (simp add: literal_def)
qed

lemma maximal_dropWhile: "dropWhile P s = [] \<or> \<not> P (hd (dropWhile P s))"
  by (metis hd_dropWhile)

lemma dropWhile_white_append:
  "list_all white w \<Longrightarrow> r = [] \<or> \<not> white (hd r) \<Longrightarrow> dropWhile white (w @ r) = r"
  by (induction w) (auto simp: dropWhile_eq_Nil_conv intro: dropWhile_eq_self_iff [THEN iffD2])

lemma OPT_WHITE_iff:
  "OPT_WHITE s = r \<longleftrightarrow> (\<exists>w. list_all white w \<and> s = w @ r \<and> (r = [] \<or> \<not> white (hd r)))"
proof
  assume "OPT_WHITE s = r"
  then have r: "r = dropWhile white s" by (simp add: OPT_WHITE_def)
  have "list_all white (takeWhile white s)"
    by (auto simp: list_all_iff dest: set_takeWhileD)
  moreover have "s = takeWhile white s @ r" by (simp add: r)
  moreover have "r = [] \<or> \<not> white (hd r)" unfolding r by (rule maximal_dropWhile)
  ultimately show "\<exists>w. list_all white w \<and> s = w @ r \<and> (r = [] \<or> \<not> white (hd r))"
    by (intro exI [where x = "takeWhile white s"] conjI)
next
  assume "\<exists>w. list_all white w \<and> s = w @ r \<and> (r = [] \<or> \<not> white (hd r))"
  then obtain w where "list_all white w" "s = w @ r" "r = [] \<or> \<not> white (hd r)"
    by auto
  then show "OPT_WHITE s = r" by (simp add: OPT_WHITE_def dropWhile_white_append)
qed

lemma WHITE_iff:
  "WHITE s = Some r \<longleftrightarrow>
     (\<exists>w. list_all white w \<and> w \<noteq> [] \<and> s = w @ r \<and> (r = [] \<or> \<not> white (hd r)))"
proof
  assume "WHITE s = Some r"
  then obtain c cs where s: "s = c # cs" and c: "white c" and r: "r = dropWhile white cs"
    by (auto simp: WHITE_def split: list.splits if_splits)
  have "list_all white (c # takeWhile white cs)"
    using c by (auto simp: list_all_iff dest: set_takeWhileD)
  moreover have "s = (c # takeWhile white cs) @ r" by (simp add: r s)
  moreover have "r = [] \<or> \<not> white (hd r)" unfolding r by (rule maximal_dropWhile)
  ultimately show "\<exists>w. list_all white w \<and> w \<noteq> [] \<and> s = w @ r \<and> (r = [] \<or> \<not> white (hd r))"
    by (intro exI [where x = "c # takeWhile white cs"] conjI) simp_all
next
  assume "\<exists>w. list_all white w \<and> w \<noteq> [] \<and> s = w @ r \<and> (r = [] \<or> \<not> white (hd r))"
  then obtain w where w: "list_all white w" "w \<noteq> []" "s = w @ r" "r = [] \<or> \<not> white (hd r)"
    by auto
  then obtain c cs where "w = c # cs" by (cases w) auto
  with w show "WHITE s = Some r"
    by (simp add: WHITE_def dropWhile_white_append)
qed

lemma STRING_iff: "STRING s = Some r \<longleftrightarrow> (\<exists>str. quoted str \<and> s = str @ r)"
proof
  assume "STRING s = Some r"
  then obtain q cs c where s: "s = q # cs" and q: "q = CHR 0x27 \<or> q = CHR 0x22"
    and d: "dropWhile (\<lambda>c. c \<noteq> q) cs = c # r"
    by (auto simp: STRING_def split: list.splits if_splits)
  from d have "dropWhile (\<lambda>c. c \<noteq> q) cs \<noteq> []" by simp
  from hd_dropWhile [OF this] d have "c = q" by simp
  have "cs = takeWhile (\<lambda>c. c \<noteq> q) cs @ q # r"
    using takeWhile_dropWhile_id [of "\<lambda>c. c \<noteq> q" cs] d \<open>c = q\<close> by simp
  moreover have "q \<notin> set (takeWhile (\<lambda>c. c \<noteq> q) cs)"
    by (auto dest: set_takeWhileD)
  ultimately have "quoted (q # takeWhile (\<lambda>c. c \<noteq> q) cs @ [q])"
    and "s = (q # takeWhile (\<lambda>c. c \<noteq> q) cs @ [q]) @ r"
    using q s unfolding quoted_def by auto
  then show "\<exists>str. quoted str \<and> s = str @ r"
    by (intro exI [where x = "q # takeWhile (\<lambda>c. c \<noteq> q) cs @ [q]"] conjI)
next
  assume "\<exists>str. quoted str \<and> s = str @ r"
  then obtain str where st: "quoted str" and s0: "s = str @ r"
    by (elim exE conjE)
  from st obtain q body where q: "q = CHR 0x27 \<or> q = CHR 0x22" and b: "q \<notin> set body"
    and str: "str = q # body @ [q]"
    unfolding quoted_def by (elim exE conjE)
  from b have d: "dropWhile (\<lambda>c. c \<noteq> q) (body @ q # r) = q # r"
    by (induction body) auto
  have s: "s = q # body @ q # r" by (simp add: s0 str)
  show "STRING s = Some r"
    unfolding s STRING_def using q d by simp
qed

lemma not_white_chars:
  "\<not> white (CHR ''i'')" "\<not> white (CHR ''('')" "\<not> white (CHR ''n'')" "\<not> white (CHR ''='')"
  "\<not> white (CHR '','')" "\<not> white (CHR 0x27)" "\<not> white (CHR 0x22)" "\<not> white (CHR ''c'')"
  by (simp_all add: white_def isspace_def)

lemma dropWhile_white_Cons:
  "list_all white w \<Longrightarrow> \<not> white c \<Longrightarrow> dropWhile white (w @ c # r) = c # r"
  by (induction w) auto

lemma NAME_KEYWORD_iff:
  "NAME_KEYWORD s = Some r \<longleftrightarrow>
     (\<exists>w4 w5 w6 w7 str. list_all white w4 \<and> list_all white w5 \<and> list_all white w6
        \<and> list_all white w7 \<and> quoted str
        \<and> s = ''name'' @ w4 @ ''='' @ w5 @ str @ w6 @ '','' @ w7 @ r
        \<and> (r = [] \<or> \<not> white (hd r)))"
proof
  assume "NAME_KEYWORD s = Some r"
  then obtain s1 s2 s3 s4 where 1: "literal ''name'' s = Some s1"
    and 2: "literal ''='' (OPT_WHITE s1) = Some s2"
    and 3: "STRING (OPT_WHITE s2) = Some s3"
    and 4: "literal '','' (OPT_WHITE s3) = Some s4"
    and r: "OPT_WHITE s4 = r"
    by (auto simp: NAME_KEYWORD_def bind_eq_Some_conv)
  from 1 have e1: "s = ''name'' @ s1" by (simp only: literal_iff)
  obtain w4 where w4: "list_all white w4" and e2: "s1 = w4 @ OPT_WHITE s1"
    using OPT_WHITE_iff [of s1 "OPT_WHITE s1"] by auto
  from 2 have e3: "OPT_WHITE s1 = ''='' @ s2" by (simp only: literal_iff)
  obtain w5 where w5: "list_all white w5" and e4: "s2 = w5 @ OPT_WHITE s2"
    using OPT_WHITE_iff [of s2 "OPT_WHITE s2"] by auto
  from 3 obtain str where str: "quoted str" and e5: "OPT_WHITE s2 = str @ s3"
    by (auto simp only: STRING_iff)
  obtain w6 where w6: "list_all white w6" and e6: "s3 = w6 @ OPT_WHITE s3"
    using OPT_WHITE_iff [of s3 "OPT_WHITE s3"] by auto
  from 4 have e7: "OPT_WHITE s3 = '','' @ s4" by (simp only: literal_iff)
  from r obtain w7 where w7: "list_all white w7" and e8: "s4 = w7 @ r"
    and mx: "r = [] \<or> \<not> white (hd r)"
    using OPT_WHITE_iff [of s4 r] by auto
  have "s = ''name'' @ w4 @ ''='' @ w5 @ str @ w6 @ '','' @ w7 @ r"
    by (metis e1 e2 e3 e4 e5 e6 e7 e8)
  with w4 w5 w6 w7 str mx
  show "\<exists>w4 w5 w6 w7 str. list_all white w4 \<and> list_all white w5 \<and> list_all white w6
        \<and> list_all white w7 \<and> quoted str
        \<and> s = ''name'' @ w4 @ ''='' @ w5 @ str @ w6 @ '','' @ w7 @ r
        \<and> (r = [] \<or> \<not> white (hd r))"
    by (rule_tac exI [where x = w4], rule_tac exI [where x = w5], rule_tac exI [where x = w6],
        rule_tac exI [where x = w7], rule_tac exI [where x = str]) simp
next
  assume "\<exists>w4 w5 w6 w7 str. list_all white w4 \<and> list_all white w5 \<and> list_all white w6
        \<and> list_all white w7 \<and> quoted str
        \<and> s = ''name'' @ w4 @ ''='' @ w5 @ str @ w6 @ '','' @ w7 @ r
        \<and> (r = [] \<or> \<not> white (hd r))"
  then obtain w4 w5 w6 w7 str where w: "list_all white w4" "list_all white w5" "list_all white w6"
    "list_all white w7" and str: "quoted str"
    and s: "s = ''name'' @ w4 @ ''='' @ w5 @ str @ w6 @ '','' @ w7 @ r"
    and mx: "r = [] \<or> \<not> white (hd r)"
    by (elim exE conjE)
  from str obtain q body where q: "q = CHR 0x27 \<or> q = CHR 0x22" and str': "str = q # body @ [q]"
    unfolding quoted_def by (elim exE conjE)
  from q have nq: "\<not> white q" using not_white_chars by auto
  have 1: "literal ''name'' s = Some (w4 @ ''='' @ w5 @ str @ w6 @ '','' @ w7 @ r)"
    unfolding s literal_iff ..
  have 2: "OPT_WHITE (w4 @ ''='' @ w5 @ str @ w6 @ '','' @ w7 @ r) = ''='' @ w5 @ str @ w6 @ '','' @ w7 @ r"
    using w by (simp add: OPT_WHITE_def dropWhile_white_Cons not_white_chars)
  have 3: "literal ''='' (''='' @ w5 @ str @ w6 @ '','' @ w7 @ r) = Some (w5 @ str @ w6 @ '','' @ w7 @ r)"
    unfolding literal_iff ..
  have 4: "OPT_WHITE (w5 @ str @ w6 @ '','' @ w7 @ r) = str @ w6 @ '','' @ w7 @ r"
    using w nq by (simp add: OPT_WHITE_def dropWhile_white_Cons str')
  have 5: "STRING (str @ w6 @ '','' @ w7 @ r) = Some (w6 @ '','' @ w7 @ r)"
    unfolding STRING_iff using str by (intro exI [where x = str] conjI refl)
  have 6: "OPT_WHITE (w6 @ '','' @ w7 @ r) = '','' @ w7 @ r"
    using w by (simp add: OPT_WHITE_def dropWhile_white_Cons not_white_chars)
  have 7: "literal '','' ('','' @ w7 @ r) = Some (w7 @ r)"
    unfolding literal_iff ..
  have 8: "OPT_WHITE (w7 @ r) = r"
    using w mx by (simp add: OPT_WHITE_def dropWhile_white_append)
  show "NAME_KEYWORD s = Some r"
    unfolding NAME_KEYWORD_def by (simp only: 1 2 3 4 5 6 7 8 bind.simps)
qed

lemma NAMED_INVOKE_iff:
  "NAMED_INVOKE s = Some r \<longleftrightarrow>
     (\<exists>m. named_invoke_text m \<and> s = m @ r \<and> (r = [] \<or> \<not> white (hd r)))"
proof
  assume "NAMED_INVOKE s = Some r"
  then obtain s1 s2 s3 s4 where 1: "literal ''call'' s = Some s1"
    and 2: "WHITE s1 = Some s2"
    and 3: "literal ''invoke'' s2 = Some s3"
    and 4: "literal ''('' (OPT_WHITE s3) = Some s4"
    and 5: "NAME_KEYWORD (OPT_WHITE s4) = Some r"
    by (auto simp: NAMED_INVOKE_def bind_eq_Some_conv)
  from 1 have e1: "s = ''call'' @ s1" by (simp only: literal_iff)
  from 2 obtain w1 where w1: "list_all white w1" "w1 \<noteq> []" and e2: "s1 = w1 @ s2"
    by (auto simp only: WHITE_iff)
  from 3 have e3: "s2 = ''invoke'' @ s3" by (simp only: literal_iff)
  obtain w2 where w2: "list_all white w2" and e4: "s3 = w2 @ OPT_WHITE s3"
    using OPT_WHITE_iff [of s3 "OPT_WHITE s3"] by auto
  from 4 have e5: "OPT_WHITE s3 = ''('' @ s4" by (simp only: literal_iff)
  obtain w3 where w3: "list_all white w3" and e6: "s4 = w3 @ OPT_WHITE s4"
    using OPT_WHITE_iff [of s4 "OPT_WHITE s4"] by auto
  from 5 obtain w4 w5 w6 w7 str where w: "list_all white w4" "list_all white w5"
    "list_all white w6" "list_all white w7" and str: "quoted str"
    and e7: "OPT_WHITE s4 = ''name'' @ w4 @ ''='' @ w5 @ str @ w6 @ '','' @ w7 @ r"
    and mx: "r = [] \<or> \<not> white (hd r)"
    unfolding NAME_KEYWORD_iff by (elim exE conjE)
  let ?m = "''call'' @ w1 @ ''invoke'' @ w2 @ ''('' @ w3 @ ''name'' @ w4 @ ''='' @ w5 @ str
                @ w6 @ '','' @ w7"
  have "s = ''call'' @ w1 @ ''invoke'' @ w2 @ ''('' @ w3 @ ''name'' @ w4 @ ''='' @ w5 @ str
                @ w6 @ '','' @ w7 @ r"
    by (metis e1 e2 e3 e4 e5 e6 e7)
  then have s: "s = ?m @ r" by simp
  have "named_invoke_text ?m"
    unfolding named_invoke_text_def
    by (rule exI [where x = w1], rule exI [where x = w2], rule exI [where x = w3],
        rule exI [where x = w4], rule exI [where x = w5], rule exI [where x = w6],
        rule exI [where x = w7], rule exI [where x = str])
      (simp add: w1 w2 w3 w str)
  with s mx show "\<exists>m. named_invoke_text m \<and> s = m @ r \<and> (r = [] \<or> \<not> white (hd r))"
    by (intro exI [where x = ?m] conjI)
next
  assume "\<exists>m. named_invoke_text m \<and> s = m @ r \<and> (r = [] \<or> \<not> white (hd r))"
  then obtain m where m: "named_invoke_text m" and sm: "s = m @ r"
    and mx: "r = [] \<or> \<not> white (hd r)"
    by (elim exE conjE)
  from m obtain w1 w2 w3 w4 w5 w6 w7 str where w1: "list_all white w1" "w1 \<noteq> []"
    and w2: "list_all white w2" and w3: "list_all white w3"
    and w: "list_all white w4" "list_all white w5" "list_all white w6" "list_all white w7"
    and str: "quoted str"
    and me: "m = ''call'' @ w1 @ ''invoke'' @ w2 @ ''('' @ w3 @ ''name'' @ w4 @ ''='' @ w5 @ str
                @ w6 @ '','' @ w7"
    unfolding named_invoke_text_def by (elim exE conjE)
  let ?k = "''name'' @ w4 @ ''='' @ w5 @ str @ w6 @ '','' @ w7 @ r"
  have s: "s = ''call'' @ w1 @ ''invoke'' @ w2 @ ''('' @ w3 @ ?k"
    by (simp add: sm me)
  have 1: "literal ''call'' s = Some (w1 @ ''invoke'' @ w2 @ ''('' @ w3 @ ?k)"
    unfolding s literal_iff ..
  have 2: "WHITE (w1 @ ''invoke'' @ w2 @ ''('' @ w3 @ ?k) = Some (''invoke'' @ w2 @ ''('' @ w3 @ ?k)"
    unfolding WHITE_iff
    by (rule exI [where x = w1]) (simp add: w1 not_white_chars)
  have 3: "literal ''invoke'' (''invoke'' @ w2 @ ''('' @ w3 @ ?k) = Some (w2 @ ''('' @ w3 @ ?k)"
    unfolding literal_iff ..
  have 4: "OPT_WHITE (w2 @ ''('' @ w3 @ ?k) = ''('' @ w3 @ ?k"
    using w2 by (simp add: OPT_WHITE_def dropWhile_white_Cons not_white_chars)
  have 5: "literal ''('' (''('' @ w3 @ ?k) = Some (w3 @ ?k)"
    unfolding literal_iff ..
  have 6: "OPT_WHITE (w3 @ ?k) = ?k"
    using w3 by (simp add: OPT_WHITE_def dropWhile_white_Cons not_white_chars)
  have 7: "NAME_KEYWORD ?k = Some r"
    unfolding NAME_KEYWORD_iff
    by (rule exI [where x = w4], rule exI [where x = w5], rule exI [where x = w6],
        rule exI [where x = w7], rule exI [where x = str])
      (use w str mx in simp)
  show "NAMED_INVOKE s = Some r"
    unfolding NAMED_INVOKE_def by (simp only: 1 2 3 4 5 6 7 bind.simps)
qed

lemma NAMED_INVOKE_None_iff:
  "NAMED_INVOKE s = None \<longleftrightarrow> (\<forall>m r. named_invoke_text m \<longrightarrow> s \<noteq> m @ r)"
proof
  assume n: "NAMED_INVOKE s = None"
  show "\<forall>m r. named_invoke_text m \<longrightarrow> s \<noteq> m @ r"
  proof (intro allI impI notI)
    fix m r
    assume m: "named_invoke_text m" and s: "s = m @ r"
    \<comment> \<open>extend the occurrence by the whitespace that follows it\<close>
    have lw: "list_all white (takeWhile white r)"
      by (auto simp: list_all_iff dest: set_takeWhileD)
    from m obtain w1 w2 w3 w4 w5 w6 w7 str where a: "list_all white w1" "w1 \<noteq> []"
      "list_all white w2" "list_all white w3" "list_all white w4" "list_all white w5"
      "list_all white w6" and w7: "list_all white w7" and str: "quoted str"
      and me: "m = ''call'' @ w1 @ ''invoke'' @ w2 @ ''('' @ w3 @ ''name'' @ w4 @ ''='' @ w5 @ str
                @ w6 @ '','' @ w7"
      unfolding named_invoke_text_def by (elim exE conjE)
    let ?w = "w7 @ takeWhile white r"
    let ?m = "''call'' @ w1 @ ''invoke'' @ w2 @ ''('' @ w3 @ ''name'' @ w4 @ ''='' @ w5 @ str
                @ w6 @ '','' @ ?w"
    have "list_all white ?w" using w7 lw by simp
    then have "named_invoke_text ?m"
      unfolding named_invoke_text_def
      by (rule_tac exI [where x = w1], rule_tac exI [where x = w2], rule_tac exI [where x = w3],
        rule_tac exI [where x = w4], rule_tac exI [where x = w5], rule_tac exI [where x = w6],
        rule_tac exI [where x = ?w], rule_tac exI [where x = str])
      (use a str in simp)
    moreover have "s = ?m @ dropWhile white r"
      by (simp add: s me)
    moreover have "dropWhile white r = [] \<or> \<not> white (hd (dropWhile white r))"
      by (rule maximal_dropWhile)
    ultimately have "\<exists>m. named_invoke_text m \<and> s = m @ dropWhile white r
        \<and> (dropWhile white r = [] \<or> \<not> white (hd (dropWhile white r)))"
      by (intro exI [where x = ?m] conjI)
    then have "NAMED_INVOKE s = Some (dropWhile white r)"
      by (simp only: NAMED_INVOKE_iff)
    with n show False by simp
  qed
next
  assume a: "\<forall>m r. named_invoke_text m \<longrightarrow> s \<noteq> m @ r"
  show "NAMED_INVOKE s = None"
  proof (rule ccontr)
    assume "NAMED_INVOKE s \<noteq> None"
    then obtain r where "NAMED_INVOKE s = Some r" by auto
    then obtain m where "named_invoke_text m" "s = m @ r"
      unfolding NAMED_INVOKE_iff by (elim exE conjE)
    with a [rule_format, of m r] show False by simp
  qed
qed


lemma named_invoke_text_Cons: "named_invoke_text m \<Longrightarrow> \<exists>m'. m = CHR ''c'' # m'"
  unfolding named_invoke_text_def by (elim exE conjE) simp




subsection \<open>The rewrite makes no comment line\<close>

lemma comment_free_weaken: "comment_free True s \<Longrightarrow> comment_free False s"
proof (induction s)
  case Nil
  then show ?case by simp
next
  case (Cons a s)
  then show ?case by (cases "isspace a") (auto split: if_splits)
qed

lemma comment_free_append: "comment_free b (m @ r) \<Longrightarrow> comment_free False r"
proof (induction m arbitrary: b)
  case Nil
  then show ?case by (cases b) (auto intro: comment_free_weaken)
next
  case (Cons a m)
  then show ?case by (auto split: if_splits)
qed

lemma comment_free_replacement:
  "comment_free b (''call invoke('' @ s) = comment_free False s"
  by (simp add: isspace_def)

lemma x90_sub_comment_free: "comment_free b s \<Longrightarrow> comment_free b (x90_sub s)"
proof (induction s arbitrary: b rule: x90_sub.induct)
  case 1
  then show ?case by simp
next
  case (2 c cs)
  show ?case
  proof (cases "NAMED_INVOKE (c # cs)")
    case None
    with 2 show ?thesis by (auto split: if_splits)
  next
    case (Some rest)
    then obtain m where "c # cs = m @ rest"
      unfolding NAMED_INVOKE_iff by (elim exE conjE)
    with "2.prems" have "comment_free False rest"
      by (metis comment_free_append)
    then have "comment_free False (x90_sub rest)" by (rule "2.IH"(2) [OF Some])
    then have "comment_free b (''call invoke('' @ x90_sub rest)"
      by (simp only: comment_free_replacement)
    with Some show ?thesis by simp
  qed
qed

lemma no_comment_lines_comment_free: "comment_free True (concat (no_comment_lines t))"
  by (simp add: comment_free_readlines [THEN conjunct1] readlines_no_comment_lines)
    (simp add: no_comment_lines_def)

lemma no_comment_lines_id:
  assumes "comment_free True s"
  shows "concat (no_comment_lines s) = s"
proof -
  from assms have "\<forall>l \<in> set (readlines s). \<not> is_comment_line l"
    by (simp add: comment_free_readlines [THEN conjunct1])
  then have "no_comment_lines s = readlines s"
    by (simp add: no_comment_lines_def)
  then show ?thesis by (simp add: concat_readlines)
qed

lemma x90_sub_fixed: "no_named_invoke s \<Longrightarrow> x90_sub s = s"
  by (induction s) auto

lemma no_named_invoke_iff:
  "no_named_invoke s \<longleftrightarrow> (\<forall>pre m post. named_invoke_text m \<longrightarrow> s \<noteq> pre @ m @ post)"
proof (induction s)
  case Nil
  show ?case by (auto dest: named_invoke_text_Cons)
next
  case (Cons c cs)
  have "(\<forall>pre m post. named_invoke_text m \<longrightarrow> c # cs \<noteq> pre @ m @ post)
        \<longleftrightarrow> (\<forall>m post. named_invoke_text m \<longrightarrow> c # cs \<noteq> m @ post)
            \<and> (\<forall>pre m post. named_invoke_text m \<longrightarrow> cs \<noteq> pre @ m @ post)"
    (is "?L \<longleftrightarrow> ?A \<and> ?B")
  proof (intro iffI conjI)
    assume l: ?L
    show ?A using l [rule_format, of _ "[]"] by simp
    show ?B
    proof (intro allI impI)
      fix pre m post assume "named_invoke_text m"
      with l [rule_format, of m "c # pre" post] show "cs \<noteq> pre @ m @ post" by simp
    qed
  next
    assume ab: "?A \<and> ?B"
    show ?L
    proof (intro allI impI)
      fix pre m post assume m: "named_invoke_text m"
      show "c # cs \<noteq> pre @ m @ post"
      proof (cases pre)
        case Nil
        with ab m show ?thesis by simp
      next
        case (Cons a pre')
        with ab m show ?thesis by simp
      qed
    qed
  qed
  with Cons show ?case by (simp add: NAMED_INVOKE_None_iff)
qed



text \<open>
  C5, as amended. When the text that \<open>make_parsable_x90\<close> writes contains no occurrence
  of the named-invoke pattern, applying the transformation to it gives the same text.
\<close>

theorem make_parsable_text_idempotent:
  assumes "\<forall>pre m post. named_invoke_text m \<longrightarrow> make_parsable_text t \<noteq> pre @ m @ post"
  shows "make_parsable_text (make_parsable_text t) = make_parsable_text t"
proof -
  have "comment_free True (make_parsable_text t)"
    unfolding make_parsable_text_def
    by (intro x90_sub_comment_free no_comment_lines_comment_free)
  then have "concat (no_comment_lines (make_parsable_text t)) = make_parsable_text t"
    by (rule no_comment_lines_id)
  then have "make_parsable_text (make_parsable_text t) = x90_sub (make_parsable_text t)"
    by (simp add: make_parsable_text_def)
  also from assms have "\<dots> = make_parsable_text t"
    by (intro x90_sub_fixed) (simp only: no_named_invoke_iff)
  finally show ?thesis .
qed

text \<open>
  Without the condition the transformation is not idempotent: when a name keyword
  follows the one that is removed, the output has a named invoke again.
\<close>

theorem make_parsable_text_idempotent_counterexample:
  "make_parsable_text (make_parsable_text ''call invoke(name='a',name='b',k)'')
     \<noteq> make_parsable_text ''call invoke(name='a',name='b',k)''"
  by (simp add: make_parsable_text_def no_comment_lines_def is_comment_line_def isspace_def
      NAMED_INVOKE_def NAME_KEYWORD_def literal_def WHITE_def OPT_WHITE_def STRING_def white_def)

theorem make_parsable_text_idempotent_witness:
  "make_parsable_text (make_parsable_text ''call invoke( name = \"m\", k(...))'')
     = make_parsable_text ''call invoke( name = \"m\", k(...))''"
proof -
  have e: "make_parsable_text ''call invoke( name = \"m\", k(...))'' = ''call invoke(k(...))''"
    by (simp add: make_parsable_text_def no_comment_lines_def is_comment_line_def isspace_def
      NAMED_INVOKE_def NAME_KEYWORD_def literal_def WHITE_def OPT_WHITE_def STRING_def white_def)
  have "no_named_invoke ''call invoke(k(...))''"
    by (simp add: NAMED_INVOKE_def NAME_KEYWORD_def literal_def WHITE_def OPT_WHITE_def STRING_def
        white_def isspace_def)
  then have "\<forall>pre m post. named_invoke_text m
      \<longrightarrow> make_parsable_text ''call invoke( name = \"m\", k(...))'' \<noteq> pre @ m @ post"
    by (simp only: e no_named_invoke_iff)
  then show ?thesis by (rule make_parsable_text_idempotent)
qed

section \<open>Suffixes of paths\<close>

lemma rfind_nonneg_iff: "0 \<le> rfind c xs \<longleftrightarrow> c \<in> set xs"
  by (induction xs) (auto simp: Let_def)

lemma rfind_append: "c \<notin> set e \<Longrightarrow> rfind c (b @ c # e) = int (length b)"
proof (induction b)
  case Nil
  then have "\<not> 0 \<le> rfind c e" by (simp add: rfind_nonneg_iff)
  then show ?case by (simp add: Let_def)
next
  case (Cons a b)
  then show ?case by (simp add: Let_def)
qed

lemma rfind_split:
  "0 \<le> rfind c xs \<Longrightarrow>
     \<exists>b e. xs = b @ c # e \<and> c \<notin> set e \<and> rfind c xs = int (length b)"
proof (induction xs)
  case Nil
  then show ?case by simp
next
  case (Cons a xs)
  show ?case
  proof (cases "0 \<le> rfind c xs")
    case True
    from Cons.IH [OF True] obtain b e where "xs = b @ c # e" "c \<notin> set e" "rfind c xs = int (length b)"
      by (elim exE conjE)
    then have "a # xs = (a # b) @ c # e \<and> c \<notin> set e \<and> rfind c (a # xs) = int (length (a # b))"
      by (simp add: Let_def)
    then show ?thesis by (rule_tac exI [where x = "a # b"], rule_tac exI [where x = e])
  next
    case False
    with Cons.prems have ac: "a = c" by (simp add: Let_def split: if_splits)
    from False have "c \<notin> set xs" by (simp add: rfind_nonneg_iff)
    with ac False have "a # xs = [] @ c # xs \<and> c \<notin> set xs \<and> rfind c (a # xs) = int (length ([]::'a list))"
      by (simp add: Let_def)
    then show ?thesis by (rule_tac exI [where x = "[]"], rule_tac exI [where x = xs])
  qed
qed

lemma name_suffix_append:
  assumes "b \<noteq> []" "e \<noteq> []" "CHR ''.'' \<notin> set e"
  shows "name_suffix (b @ CHR ''.'' # e) = CHR ''.'' # e" and "name_stem (b @ CHR ''.'' # e) = b"
  using assms by (simp_all add: name_suffix_def name_stem_def rfind_append Let_def)

lemma name_suffix_split:
  assumes "name_suffix n \<noteq> []"
  shows "\<exists>b e. n = b @ CHR ''.'' # e \<and> b \<noteq> [] \<and> e \<noteq> [] \<and> CHR ''.'' \<notin> set e"
proof -
  let ?i = "rfind (CHR ''.'') n"
  from assms have i: "0 < ?i" "?i < int (length n) - 1"
    by (auto simp: name_suffix_def Let_def split: if_splits)
  then have "0 \<le> ?i" by simp
  from rfind_split [OF this] obtain b e where n: "n = b @ CHR ''.'' # e" and e: "CHR ''.'' \<notin> set e"
    and r: "?i = int (length b)"
    by (elim exE conjE)
  from i r have "b \<noteq> []" by auto
  moreover from i r n have "e \<noteq> []" by auto
  ultimately show ?thesis using n e
    by (rule_tac exI [where x = b], rule_tac exI [where x = e]) simp
qed

lemma suffix_split:
  assumes "suffix p = s" and "s \<noteq> []"
  shows "\<exists>b e. name p = b @ CHR ''.'' # e \<and> b \<noteq> [] \<and> e \<noteq> [] \<and> CHR ''.'' \<notin> set e
           \<and> s = CHR ''.'' # e \<and> stem p = b"
proof -
  from assms have "name_suffix (name p) \<noteq> []" by (simp add: suffix_def)
  from name_suffix_split [OF this] obtain b e where n: "name p = b @ CHR ''.'' # e"
    and be: "b \<noteq> []" "e \<noteq> []" "CHR ''.'' \<notin> set e"
    by (elim exE conjE)
  from name_suffix_append [OF be] n assms have "s = CHR ''.'' # e" "stem p = b"
    by (simp_all add: suffix_def stem_def)
  with n be show ?thesis
    by (rule_tac exI [where x = b], rule_tac exI [where x = e]) simp
qed

lemma with_suffix_replace:
  assumes "suffix p \<noteq> []" and "e' \<noteq> []" and "CHR ''.'' \<notin> set e'" and "CHR ''/'' \<notin> set e'"
  shows "with_suffix p (CHR ''.'' # e') = Inr (Path (parent p) (stem p @ CHR ''.'' # e'))"
    and "suffix (Path (parent p) (stem p @ CHR ''.'' # e')) = CHR ''.'' # e'"
    and "stem (Path (parent p) (stem p @ CHR ''.'' # e')) = stem p"
proof -
  from suffix_split [OF refl assms(1)] obtain b e where n: "name p = b @ CHR ''.'' # e"
    and be: "b \<noteq> []" "e \<noteq> []" "CHR ''.'' \<notin> set e" and s: "suffix p = CHR ''.'' # e"
    and st: "stem p = b"
    by (elim exE conjE)
  show "with_suffix p (CHR ''.'' # e') = Inr (Path (parent p) (stem p @ CHR ''.'' # e'))"
    using assms n s st by (simp add: with_suffix_def Let_def)
  from name_suffix_append [OF be(1) assms(2,3)]
  show "suffix (Path (parent p) (stem p @ CHR ''.'' # e')) = CHR ''.'' # e'"
    and "stem (Path (parent p) (stem p @ CHR ''.'' # e')) = stem p"
    unfolding st [symmetric] by (simp_all add: suffix_def stem_def)
qed

lemma with_suffix_parsable_roundtrip:
  assumes "suffix p = ''.x90''" and "with_suffix p ''.parsable_x90'' = Inr q"
  shows "with_suffix q ''.x90'' = Inr p" and "suffix q = ''.parsable_x90''"
proof -
  from assms(1) have ne: "suffix p \<noteq> []" by simp
  from suffix_split [OF assms(1)] have n: "name p = stem p @ ''.x90''"
    by auto
  have q: "q = Path (parent p) (stem p @ ''.parsable_x90'')"
    using with_suffix_replace(1) [OF ne, of "''parsable_x90''"] assms(2) by simp
  show sq: "suffix q = ''.parsable_x90''"
    using with_suffix_replace(2) [OF ne, of "''parsable_x90''"] q by simp
  then have ne': "suffix q \<noteq> []" by simp
  have "stem q = stem p"
    using with_suffix_replace(3) [OF ne, of "''parsable_x90''"] q by simp
  with with_suffix_replace(1) [OF ne', of "''x90''"] q n
  show "with_suffix q ''.x90'' = Inr p"
    by (cases p) simp
qed

section \<open>The analysis of the x90 files\<close>

lemma make_parsable_x90_Inr:
  assumes "make_parsable_x90 x st = (Inr q, st')"
  shows "\<exists>src. files st x = Some src \<and> with_suffix x ''.parsable_x90'' = Inr q
           \<and> files st' = (files st)(q \<mapsto> make_parsable_text src)"
  using assms by (auto simp: make_parsable_x90_def split: option.splits sum.splits)

lemma run_mp_Cons_Inr:
  assumes "run_mp func (item # items) st = (Inr rs, st2)"
  shows "\<exists>r rs' st1. func item st = (Inr r, st1) \<and> run_mp func items st1 = (Inr rs', st2) \<and> rs = r # rs'"
  using assms by (auto split: prod.splits sum.splits)

lemma parsable_not_x90:
  assumes "suffix x = ''.x90''" and "with_suffix x ''.parsable_x90'' = Inr q"
  shows "suffix q \<noteq> ''.x90''"
  using with_suffix_parsable_roundtrip(2) [OF assms] by simp

lemma run_mp_make_parsable:
  assumes "\<forall>x \<in> set xs. suffix x = ''.x90''"
    and "run_mp make_parsable_x90 xs st = (Inr ps, st1)"
  shows "list_all2 (\<lambda>x q. with_suffix x ''.parsable_x90'' = Inr q) xs ps
    \<and> (\<forall>x \<in> set xs. \<exists>src. files st x = Some src)
    \<and> (\<forall>x \<in> set xs. \<forall>q src. with_suffix x ''.parsable_x90'' = Inr q \<longrightarrow> files st x = Some src
          \<longrightarrow> files st1 q = Some (make_parsable_text src))
    \<and> (\<forall>q. (\<forall>x \<in> set xs. with_suffix x ''.parsable_x90'' \<noteq> Inr q) \<longrightarrow> files st1 q = files st q)"
  using assms
proof (induction xs arbitrary: st ps)
  case Nil
  then show ?case by simp
next
  case (Cons x xs)
  from run_mp_Cons_Inr [OF Cons.prems(2)] obtain q0 ps' st' where
    h: "make_parsable_x90 x st = (Inr q0, st')" and t: "run_mp make_parsable_x90 xs st' = (Inr ps', st1)"
    and ps: "ps = q0 # ps'"
    by (elim exE conjE)
  from make_parsable_x90_Inr [OF h] obtain src0 where
    f0: "files st x = Some src0" and w0: "with_suffix x ''.parsable_x90'' = Inr q0"
    and st': "files st' = (files st)(q0 \<mapsto> make_parsable_text src0)"
    by (elim exE conjE)
  from Cons.prems(1) have sx: "suffix x = ''.x90''" and sxs: "\<forall>x \<in> set xs. suffix x = ''.x90''"
    by simp_all
  have q0: "suffix q0 \<noteq> ''.x90''" using parsable_not_x90 [OF sx w0] .
  have same: "files st' y = files st y" if "suffix y = ''.x90''" for y
    using that q0 by (auto simp: st')
  note IH = Cons.IH [OF sxs t]
  note 1 = IH [THEN conjunct1]
  note 2 = IH [THEN conjunct2, THEN conjunct1]
  note 3 = IH [THEN conjunct2, THEN conjunct2, THEN conjunct1]
  note 4 = IH [THEN conjunct2, THEN conjunct2, THEN conjunct2]
  have a: "list_all2 (\<lambda>x q. with_suffix x ''.parsable_x90'' = Inr q) (x # xs) ps"
    using 1 w0 ps by simp
  have b: "\<forall>y \<in> set (x # xs). \<exists>src. files st y = Some src"
    using 2 f0 sxs same by auto
  have c: "files st1 q = Some (make_parsable_text src)"
    if y: "y \<in> set (x # xs)" and wq: "with_suffix y ''.parsable_x90'' = Inr q"
      and fy: "files st y = Some src" for y q src
  proof (cases "y \<in> set xs")
    case True
    with sxs same fy have "files st' y = Some src" by simp
    with 3 [rule_format, OF True wq] show ?thesis .
  next
    case False
    with y have yx: "y = x" by simp
    with wq w0 fy f0 have qq: "q = q0" and ss: "src = src0" by simp_all
    have "\<forall>z \<in> set xs. with_suffix z ''.parsable_x90'' \<noteq> Inr q0"
    proof
      fix z assume z: "z \<in> set xs"
      show "with_suffix z ''.parsable_x90'' \<noteq> Inr q0"
      proof
        assume wz: "with_suffix z ''.parsable_x90'' = Inr q0"
        from z sxs have "suffix z = ''.x90''" by simp
        from with_suffix_parsable_roundtrip(1) [OF this wz]
          with_suffix_parsable_roundtrip(1) [OF sx w0]
        have "z = x" by simp
        with z False yx show False by simp
      qed
    qed
    with 4 [rule_format, of q0] have "files st1 q0 = files st' q0" by simp
    then show ?thesis by (simp add: st' qq ss)
  qed
  have d: "files st1 q = files st q"
    if "\<forall>y \<in> set (x # xs). with_suffix y ''.parsable_x90'' \<noteq> Inr q" for q
  proof -
    from that have "q \<noteq> q0" using w0 by auto
    moreover from that 4 [rule_format, of q] have "files st1 q = files st' q" by simp
    ultimately show ?thesis by (simp add: st')
  qed
  from c have c': "\<forall>y \<in> set (x # xs). \<forall>q src. with_suffix y ''.parsable_x90'' = Inr q
      \<longrightarrow> files st y = Some src \<longrightarrow> files st1 q = Some (make_parsable_text src)"
    by (intro ballI allI impI)
  from d have d': "\<forall>q. (\<forall>y \<in> set (x # xs). with_suffix y ''.parsable_x90'' \<noteq> Inr q)
      \<longrightarrow> files st1 q = files st q"
    by (intro allI impI)
  from a b c' d' show ?case by (intro conjI)
qed

lemma check_for_errors_Inr: "check_for_errors rs = Inr u \<Longrightarrow> by_type_Exception rs = []"
  by (simp add: check_for_errors_def Let_def split: if_splits)

lemma by_type_no_Exception:
  "by_type_Exception (map f ps) = [] \<Longrightarrow> list_all2 (\<lambda>p r. f p = Inr r) ps (by_type_Analysed (map f ps))"
proof (induction ps)
  case Nil
  then show ?case by simp
next
  case (Cons p ps)
  then show ?case by (cases "f p") simp_all
qed

lemma x90_items_zip:
  "list_all2 (\<lambda>x r. with_suffix (fpath r) ''.x90'' = Inr x) xs rs \<Longrightarrow> x90_items rs = Inr (zip xs rs)"
  by (induction xs rs rule: list_all2_induct) simp_all

lemma map_of_rev_Some:
  assumes "x \<in> fst ` set kvs"
  shows "\<exists>v. map_of (rev kvs) x = Some v \<and> (x, v) \<in> set kvs"
proof -
  from assms have "map_of (rev kvs) x \<noteq> None"
    by (simp add: map_of_eq_None_iff)
  then obtain v where v: "map_of (rev kvs) x = Some v" by auto
  from map_of_SomeD [OF v] have "(x, v) \<in> set kvs" by simp
  with v show ?thesis by (rule_tac exI [where x = v]) simp
qed

text \<open>
  C6. Let the x90 analyser return, with an analysis, the path it was given, and let
  every x90 file have the suffix \<open>.x90\<close>. When the analysis of the x90 files succeeds, the
  keys of the mapping are the x90 files, and the entry of each x90 file is the analysis
  of its parsable version with, as \<open>file_hash\<close>, the checksum of the text of the x90
  file itself.
\<close>

theorem analyse_x90s_original_hash:
  assumes contract: "\<forall>p c r a. x90_analyser_run p c = (Inr r, a) \<longrightarrow> fpath r = p"
    and sfx: "\<forall>x \<in> set x90s. suffix x = ''.x90''"
    and ok: "analyse_x90s checksum x90_analyser_run x90s st = (Inr analysed, st')"
  shows "dom analysed = set x90s
    \<and> (\<forall>x \<in> set x90s. \<exists>src q r a.
          files st x = Some src \<and> with_suffix x ''.parsable_x90'' = Inr q
          \<and> x90_analyser_run q (Some (make_parsable_text src)) = (Inr r, a)
          \<and> analysed x = Some (r\<lparr>file_hash := checksum src\<rparr>))"
proof -
  obtain r1 st1 where run: "run_mp make_parsable_x90 x90s st = (r1, st1)"
    by (cases "run_mp make_parsable_x90 x90s st")
  with ok obtain ps where r1: "r1 = Inr ps"
    by (cases r1) (simp_all add: analyse_x90s_def)
  let ?run = "\<lambda>p. x90_analyser_run p (files st1 p)"
  let ?analyses = "map fst (map ?run ps)"
  let ?st2 = "add_current_prebuilds (by_type_Path (map snd (map ?run ps))) st1"
  let ?upd = "\<lambda>(p, r). (p, r\<lparr>file_hash := checksum (the (files ?st2 p))\<rparr>)"
  have f2: "files ?st2 = files st1" by (simp add: add_current_prebuilds_def)
  from ok run r1 obtain u where chk: "check_for_errors ?analyses = Inr u"
    by (cases "check_for_errors ?analyses") (simp_all add: analyse_x90s_def Let_def)
  from ok run r1 chk obtain items where
    items: "x90_items (by_type_Analysed ?analyses) = Inr items"
    by (cases "x90_items (by_type_Analysed ?analyses)") (simp_all add: analyse_x90s_def Let_def)
  define A where "A = map_of (rev (map ?upd items))"
  define S2 where "S2 = ?st2"
  define c where "c \<longleftrightarrow> (\<exists>p \<in> set (map fst items). files ?st2 p = None)"
  have "analyse_x90s checksum x90_analyser_run x90s st =
      (if c then (Inl FileNotFoundError, S2) else (Inr A, S2))"
    unfolding A_def S2_def c_def
    using run r1 chk items by (simp add: analyse_x90s_def Let_def)
  with ok have "analysed = A"
    by (cases c) simp_all
  then have an: "analysed = map_of (rev (map ?upd items))"
    by (simp only: A_def)
  note B = run_mp_make_parsable [OF sfx run [unfolded r1]]
  note B1 = B [THEN conjunct1]
  note B2 = B [THEN conjunct2, THEN conjunct1]
  note B3 = B [THEN conjunct2, THEN conjunct2, THEN conjunct1]
  note B4 = B [THEN conjunct2, THEN conjunct2, THEN conjunct2]
  from check_for_errors_Inr [OF chk] have "by_type_Exception (map (fst \<circ> ?run) ps) = []"
    by simp
  from by_type_no_Exception [OF this]
  have A: "list_all2 (\<lambda>p r. fst (?run p) = Inr r) ps (by_type_Analysed ?analyses)"
    by (simp add: comp_def)
  let ?results = "by_type_Analysed ?analyses"
  have len: "length x90s = length ps" "length ps = length ?results"
    using B1 A by (auto dest: list_all2_lengthD)
  have R: "list_all2 (\<lambda>x r. \<exists>q a. with_suffix x ''.parsable_x90'' = Inr q \<and> ?run q = (Inr r, a))
             x90s ?results"
  proof (rule list_all2_all_nthI)
    show "length x90s = length ?results" using len by simp
  next
    fix n assume n: "n < length x90s"
    with len have n': "n < length ps" by simp
    from list_all2_nthD [OF B1 n] have w: "with_suffix (x90s ! n) ''.parsable_x90'' = Inr (ps ! n)" .
    from list_all2_nthD [OF A n'] have "fst (?run (ps ! n)) = Inr (?results ! n)" .
    then have "?run (ps ! n) = (Inr (?results ! n), snd (?run (ps ! n)))"
      by (metis prod.collapse)
    with w show "\<exists>q a. with_suffix (x90s ! n) ''.parsable_x90'' = Inr q
        \<and> ?run q = (Inr (?results ! n), a)"
      by (rule_tac exI [where x = "ps ! n"], rule_tac exI [where x = "snd (?run (ps ! n))"]) simp
  qed
  have K: "list_all2 (\<lambda>x r. with_suffix (fpath r) ''.x90'' = Inr x) x90s ?results"
  proof (rule list_all2_all_nthI)
    show "length x90s = length ?results" using len by simp
  next
    fix n assume n: "n < length x90s"
    from list_all2_nthD [OF R n]
    obtain q a where w: "with_suffix (x90s ! n) ''.parsable_x90'' = Inr q"
      and r: "?run q = (Inr (?results ! n), a)"
      by (elim exE conjE)
    from contract [rule_format, OF r] have "fpath (?results ! n) = q" .
    moreover from n sfx have "suffix (x90s ! n) = ''.x90''" by simp
    from with_suffix_parsable_roundtrip(1) [OF this w] have "with_suffix q ''.x90'' = Inr (x90s ! n)" .
    ultimately show "with_suffix (fpath (?results ! n)) ''.x90'' = Inr (x90s ! n)" by simp
  qed
  from x90_items_zip [OF K] items have iz: "items = zip x90s ?results" by simp
  have keys: "fst ` set (map ?upd items) = set x90s"
  proof -
    have "fst ` set (map ?upd items) = fst ` set items" by force
    also have "\<dots> = set (map fst (zip x90s ?results))" by (simp add: iz)
    also have "\<dots> = set x90s" using len by simp
    finally show ?thesis .
  qed
  have d: "dom analysed = set x90s"
    unfolding an by (simp only: dom_map_of_conv_image_fst set_rev keys)
  have e: "\<exists>src q r a. files st x = Some src \<and> with_suffix x ''.parsable_x90'' = Inr q
          \<and> x90_analyser_run q (Some (make_parsable_text src)) = (Inr r, a)
          \<and> analysed x = Some (r\<lparr>file_hash := checksum src\<rparr>)" if x: "x \<in> set x90s" for x
  proof -
    from x keys have "x \<in> fst ` set (map ?upd items)" by simp
    from map_of_rev_Some [OF this] obtain v where v: "analysed x = Some v"
      and xv: "(x, v) \<in> set (map ?upd items)"
      unfolding an by (elim exE conjE)
    from xv obtain r where xr: "(x, r) \<in> set items"
      and vr: "v = r\<lparr>file_hash := checksum (the (files ?st2 x))\<rparr>"
      by auto
    from xr iz have "(x, r) \<in> set (zip x90s ?results)" by simp
    with R have "\<exists>q a. with_suffix x ''.parsable_x90'' = Inr q \<and> ?run q = (Inr r, a)"
      by (auto simp: list_all2_iff)
    then obtain q a where w: "with_suffix x ''.parsable_x90'' = Inr q" and r: "?run q = (Inr r, a)"
      by (elim exE conjE)
    from B2 x obtain src where src: "files st x = Some src" by auto
    from B3 [rule_format, OF x w src] have fq: "files st1 q = Some (make_parsable_text src)" .
    from x sfx have sx: "suffix x = ''.x90''" by simp
    have "\<forall>y \<in> set x90s. with_suffix y ''.parsable_x90'' \<noteq> Inr x"
    proof
      fix y assume "y \<in> set x90s"
      with sfx have "suffix y = ''.x90''" by simp
      from parsable_not_x90 [OF this] sx show "with_suffix y ''.parsable_x90'' \<noteq> Inr x" by auto
    qed
    with B4 have "files st1 x = files st x" by simp
    with f2 src have "the (files ?st2 x) = src" by simp
    with vr have vr': "v = r\<lparr>file_hash := checksum src\<rparr>" by simp
    from r fq have "x90_analyser_run q (Some (make_parsable_text src)) = (Inr r, a)" by simp
    with src w v vr' show ?thesis
      by (rule_tac exI [where x = src], rule_tac exI [where x = q], rule_tac exI [where x = r],
          rule_tac exI [where x = a]) simp
  qed
  from d e show ?thesis by (intro conjI ballI)
qed

text \<open>
  In the example the recorded hash is 32, the length of the x90 file's text; its
  parsable version has 19 characters.
\<close>

theorem analyse_x90s_original_hash_witness:
  "(case fst (analyse_x90s ex_checksum ex_x90_analyser [ex_x90] ex_x90_state) of
      Inl e \<Rightarrow> None
    | Inr analysed \<Rightarrow> map_option file_hash (analysed ex_x90)) = Some 32
   \<and> ex_checksum (make_parsable_text ''call invoke( name = \"m\", k(...))'') = 19"
proof -
  have sfx: "\<forall>x \<in> set [ex_x90]. suffix x = ''.x90''"
    by (simp add: ex_x90_def suffix_def name_suffix_def)
  have contract: "\<forall>p c r a. ex_x90_analyser p c = (Inr r, a) \<longrightarrow> fpath r = p"
    by (auto simp: ex_x90_analyser_def)
  have "\<not> isl (fst (analyse_x90s ex_checksum ex_x90_analyser [ex_x90] ex_x90_state))"
    by (simp add: analyse_x90s_def make_parsable_x90_def ex_x90_state_def ex_x90_def
        with_suffix_def suffix_def name_suffix_def ex_x90_analyser_def check_for_errors_def
        add_current_prebuilds_def)
  then obtain analysed where a: "fst (analyse_x90s ex_checksum ex_x90_analyser [ex_x90] ex_x90_state)
      = Inr analysed"
    by (cases "fst (analyse_x90s ex_checksum ex_x90_analyser [ex_x90] ex_x90_state)") simp_all
  then have ok: "analyse_x90s ex_checksum ex_x90_analyser [ex_x90] ex_x90_state
      = (Inr analysed, snd (analyse_x90s ex_checksum ex_x90_analyser [ex_x90] ex_x90_state))"
    by (metis prod.collapse)
  from analyse_x90s_original_hash [OF contract sfx ok]
  have "\<exists>src q r a. files ex_x90_state ex_x90 = Some src
          \<and> with_suffix ex_x90 ''.parsable_x90'' = Inr q
          \<and> ex_x90_analyser q (Some (make_parsable_text src)) = (Inr r, a)
          \<and> analysed ex_x90 = Some (r\<lparr>file_hash := ex_checksum src\<rparr>)"
    by simp
  then obtain src r where "files ex_x90_state ex_x90 = Some src"
    and "analysed ex_x90 = Some (r\<lparr>file_hash := ex_checksum src\<rparr>)"
    by (elim exE conjE)
  then have "map_option file_hash (analysed ex_x90) = Some 32"
    by (auto simp: ex_x90_state_def ex_checksum_def)
  with a have 1: "(case fst (analyse_x90s ex_checksum ex_x90_analyser [ex_x90] ex_x90_state) of
      Inl e \<Rightarrow> None
    | Inr analysed \<Rightarrow> map_option file_hash (analysed ex_x90)) = Some 32"
    by simp
  have 2: "ex_checksum (make_parsable_text ''call invoke( name = \"m\", k(...))'') = 19"
    by (simp add: ex_checksum_def make_parsable_text_def no_comment_lines_def is_comment_line_def
      isspace_def NAMED_INVOKE_def NAME_KEYWORD_def literal_def WHITE_def OPT_WHITE_def STRING_def
      white_def)
  from 1 2 show ?thesis by (rule conjI)
qed

section \<open>Errors of the analyses\<close>

text \<open>
  C9, as amended. When the x90 files have been made parsable and the analysis of one or
  more of them fails, x90 analysis raises one \<open>RuntimeError\<close> that carries all the errors.
  When the analysis of one or more kernel files (of one root) fails, kernel analysis
  reports all the errors in one call of \<open>logger.error\<close> and does not raise for them: its
  result is the gathering of the kernel hashes of the files that were analysed.
\<close>

theorem analysis_errors:
  "(run_mp make_parsable_x90 x90s st = (Inr ps, st1)
      \<and> by_type_Exception (map (\<lambda>p. fst (x90_analyser_run p (files st1 p))) ps) \<noteq> []
    \<longrightarrow> analyse_x90s checksum x90_analyser_run x90s st
          = (Inl (RuntimeError (by_type_Exception (map (\<lambda>p. fst (x90_analyser_run p (files st1 p))) ps))),
             st1))
   \<and> (by_type_Exception (map (\<lambda>p. fst (fortran_analyser_run p))
          (suffix_filter (remdups (file_walk root [prebuild_folder])) [''.f90''])) \<noteq> []
    \<longrightarrow> fst (analyse_kernels file_walk fortran_analyser_run prebuild_folder [root] st)
          = gather_kernel_hashes Map.empty
              (analysed_kernel_files file_walk fortran_analyser_run prebuild_folder root)
        \<and> error_log (snd (analyse_kernels file_walk fortran_analyser_run prebuild_folder [root] st))
          = error_log st @ [by_type_Exception (map (\<lambda>p. fst (fortran_analyser_run p))
              (suffix_filter (remdups (file_walk root [prebuild_folder])) [''.f90'']))])"
proof (intro conjI impI)
  assume "run_mp make_parsable_x90 x90s st = (Inr ps, st1)
      \<and> by_type_Exception (map (\<lambda>p. fst (x90_analyser_run p (files st1 p))) ps) \<noteq> []"
  then show "analyse_x90s checksum x90_analyser_run x90s st
          = (Inl (RuntimeError (by_type_Exception (map (\<lambda>p. fst (x90_analyser_run p (files st1 p))) ps))),
             st1)"
    by (simp add: analyse_x90s_def check_for_errors_def Let_def comp_def)
next
  assume "by_type_Exception (map (\<lambda>p. fst (fortran_analyser_run p))
          (suffix_filter (remdups (file_walk root [prebuild_folder])) [''.f90''])) \<noteq> []"
  then show "fst (analyse_kernels file_walk fortran_analyser_run prebuild_folder [root] st)
          = gather_kernel_hashes Map.empty
              (analysed_kernel_files file_walk fortran_analyser_run prebuild_folder root)"
    by (simp add: analyse_kernels_def set_star_chain_def analysed_kernel_files_def Let_def)
next
  assume "by_type_Exception (map (\<lambda>p. fst (fortran_analyser_run p))
          (suffix_filter (remdups (file_walk root [prebuild_folder])) [''.f90''])) \<noteq> []"
  then show "error_log (snd (analyse_kernels file_walk fortran_analyser_run prebuild_folder [root] st))
          = error_log st @ [by_type_Exception (map (\<lambda>p. fst (fortran_analyser_run p))
              (suffix_filter (remdups (file_walk root [prebuild_folder])) [''.f90'']))]"
    by (simp add: analyse_kernels_def set_star_chain_def Let_def comp_def add_current_prebuilds_def)
qed

text \<open>
  Kernel analysis does not raise for a failed analysis: in the example tree the analysis of \<open>b.f90\<close>
  fails, and kernel analysis returns the kernel hashes of \<open>a.f90\<close>.
\<close>

theorem analysis_errors_counterexample:
  "by_type_Exception (map (\<lambda>p. fst (ex_run_failing p))
      (suffix_filter (remdups (ex_walk (Path [] ''k'') [Path [''out''] ''_prebuild''])) [''.f90'']))
     = [AnalyseError ''parse error'']
   \<and> fst (analyse_kernels ex_walk ex_run_failing (Path [''out''] ''_prebuild'') [Path [] ''k''] ex_state)
     = Inr [''ka'' \<mapsto> 7]"
  by (simp add: analyse_kernels_def set_star_chain_def suffix_filter_def suffix_def name_suffix_def
      ex_walk_def ex_run_failing_def ex_kernel_file_def)

theorem analysis_errors_witness:
  "fst (analyse_x90s ex_checksum ex_x90_failing [ex_x90] ex_x90_state)
     = Inl (RuntimeError [AnalyseError ''parse error''])
   \<and> fst (analyse_kernels ex_walk ex_run_failing (Path [''out''] ''_prebuild'') [Path [] ''k''] ex_state)
     = Inr [''ka'' \<mapsto> 7]
   \<and> error_log (snd (analyse_kernels ex_walk ex_run_failing (Path [''out''] ''_prebuild'')
        [Path [] ''k''] ex_state))
     = [[AnalyseError ''parse error'']]"
proof -
  let ?q = "Path [''src''] ''alg.parsable_x90''"
  let ?st1 = "ex_x90_state\<lparr>files := (files ex_x90_state)
      (?q \<mapsto> make_parsable_text ''call invoke( name = \"m\", k(...))'')\<rparr>"
  have run: "run_mp make_parsable_x90 [ex_x90] ex_x90_state = (Inr [?q], ?st1)"
    by (simp add: make_parsable_x90_def ex_x90_state_def ex_x90_def with_suffix_def suffix_def
        name_suffix_def)
  have e1: "by_type_Exception (map (\<lambda>p. fst (ex_x90_failing p (files ?st1 p))) [?q])
      = [AnalyseError ''parse error'']"
    by (simp add: ex_x90_failing_def)
  note T1 = analysis_errors [where ?x90s = "[ex_x90]" and ?st = ex_x90_state and ?ps = "[?q]"
      and ?st1.0 = ?st1 and ?x90_analyser_run = ex_x90_failing and ?checksum = ex_checksum,
      THEN conjunct1]
  note T2 = analysis_errors [where ?fortran_analyser_run = ex_run_failing and ?file_walk = ex_walk
      and ?root = "Path [] ''k''" and ?prebuild_folder = "Path [''out''] ''_prebuild''"
      and ?st = ex_state, THEN conjunct2]
  from T1 run e1
  have 1: "fst (analyse_x90s ex_checksum ex_x90_failing [ex_x90] ex_x90_state)
     = Inl (RuntimeError [AnalyseError ''parse error''])"
    by simp
  have e2: "by_type_Exception (map (\<lambda>p. fst (ex_run_failing p))
      (suffix_filter (remdups (ex_walk (Path [] ''k'') [Path [''out''] ''_prebuild''])) [''.f90'']))
     = [AnalyseError ''parse error'']"
    by (simp add: suffix_filter_def suffix_def name_suffix_def ex_walk_def ex_run_failing_def)
  have g: "gather_kernel_hashes Map.empty
      (analysed_kernel_files ex_walk ex_run_failing (Path [''out''] ''_prebuild'') (Path [] ''k''))
     = Inr [''ka'' \<mapsto> 7]"
    by (simp add: analysed_kernel_files_def suffix_filter_def suffix_def name_suffix_def ex_walk_def
        ex_run_failing_def ex_kernel_file_def)
  from T2 e2 g
  have 2: "fst (analyse_kernels ex_walk ex_run_failing (Path [''out''] ''_prebuild'') [Path [] ''k''] ex_state)
     = Inr [''ka'' \<mapsto> 7]"
    and 3: "error_log (snd (analyse_kernels ex_walk ex_run_failing (Path [''out''] ''_prebuild'')
        [Path [] ''k''] ex_state)) = [[AnalyseError ''parse error'']]"
    by (simp_all add: ex_state_def)
  from 1 2 3 show ?thesis by (intro conjI)
qed

section \<open>Names of the prebuild files\<close>

lemma decimal_digit:
  "n < 10 \<Longrightarrow> ''0123456789'' ! n \<in> set ''0123456789'' \<and> of_char (''0123456789'' ! n) - 48 = n"
proof -
  assume "n < 10"
  then have "n \<in> {0, 1, 2, 3, 4, 5, 6, 7, 8, 9}" by auto
  then show ?thesis by (elim insertE emptyE) simp_all
qed

lemma decimal_value_snoc: "decimal_value (s @ [c]) = 10 * decimal_value s + (of_char c - 48)"
  by (simp add: decimal_value_def)

lemma str_nat_decimal:
  "list_all (\<lambda>c. c \<in> set ''0123456789'') (str_nat n) \<and> decimal_value (str_nat n) = n \<and> str_nat n \<noteq> []"
proof (induction n rule: str_nat.induct)
  case (1 n)
  show ?case
  proof (cases "n < 10")
    case True
    with decimal_digit [of n] show ?thesis
      by (simp add: str_nat.simps [of n] decimal_value_def)
  next
    case False
    have m: "n mod 10 < 10" by simp
    from False "1.IH" decimal_digit [OF m] show ?thesis
      by (simp add: str_nat.simps [of n] decimal_value_snoc)
  qed
qed

lemma prebuilt_name:
  assumes "0 \<le> h" and "suffix p \<noteq> []"
  shows "suffix (path_join folder (stem p @ ''.'' @ str_int h @ suffix p)) = suffix p"
    and "stem (path_join folder (stem p @ ''.'' @ str_int h @ suffix p)) = stem p @ ''.'' @ str_int h"
proof -
  from suffix_split [OF refl assms(2)] obtain b e where e: "e \<noteq> []" "CHR ''.'' \<notin> set e"
    and s: "suffix p = CHR ''.'' # e"
    by (elim exE conjE)
  have ne: "stem p @ ''.'' @ str_int h \<noteq> []" by simp
  from name_suffix_append [OF ne e]
  show "suffix (path_join folder (stem p @ ''.'' @ str_int h @ suffix p)) = suffix p"
    and "stem (path_join folder (stem p @ ''.'' @ str_int h @ suffix p)) = stem p @ ''.'' @ str_int h"
    by (simp_all add: path_join_def suffix_def stem_def s [unfolded suffix_def])
qed

text \<open>
  C7, as amended. The two prebuild files of an x90 file are in the prebuild folder, and
  the name of each is the stem of its output file, a dot, the prebuild hash and the
  suffix of the output file. The hash is rendered as \<open>str\<close> does: for a hash that is not
  negative, in decimal digits that stand for the hash. When the output file has a suffix,
  it is the suffix of the prebuild file too, and the hash ends the prebuild file's stem.
\<close>

theorem get_prebuild_paths_decimal:
  assumes "0 \<le> prebuild_hash" and "suffix modified_alg \<noteq> []" and "suffix generated \<noteq> []"
  shows "parent (fst (get_prebuild_paths prebuild_folder modified_alg generated prebuild_hash))
           = parent prebuild_folder @ [name prebuild_folder]
    \<and> parent (snd (get_prebuild_paths prebuild_folder modified_alg generated prebuild_hash))
           = parent prebuild_folder @ [name prebuild_folder]
    \<and> name (fst (get_prebuild_paths prebuild_folder modified_alg generated prebuild_hash))
           = stem modified_alg @ ''.'' @ str_int prebuild_hash @ suffix modified_alg
    \<and> name (snd (get_prebuild_paths prebuild_folder modified_alg generated prebuild_hash))
           = stem generated @ ''.'' @ str_int prebuild_hash @ suffix generated
    \<and> stem (fst (get_prebuild_paths prebuild_folder modified_alg generated prebuild_hash))
           = stem modified_alg @ ''.'' @ str_int prebuild_hash
    \<and> suffix (fst (get_prebuild_paths prebuild_folder modified_alg generated prebuild_hash))
           = suffix modified_alg
    \<and> stem (snd (get_prebuild_paths prebuild_folder modified_alg generated prebuild_hash))
           = stem generated @ ''.'' @ str_int prebuild_hash
    \<and> suffix (snd (get_prebuild_paths prebuild_folder modified_alg generated prebuild_hash))
           = suffix generated
    \<and> list_all (\<lambda>c. c \<in> set ''0123456789'') (str_int prebuild_hash)
    \<and> int (decimal_value (str_int prebuild_hash)) = prebuild_hash"
proof -
  have d: "list_all (\<lambda>c. c \<in> set ''0123456789'') (str_int prebuild_hash)"
    "int (decimal_value (str_int prebuild_hash)) = prebuild_hash"
    using assms(1) str_nat_decimal [of "nat prebuild_hash"] by (simp_all add: str_int_def)
  from prebuilt_name [OF assms(1,2)] prebuilt_name [OF assms(1,3)] d
  show ?thesis
    by (simp add: get_prebuild_paths_def path_join_def Let_def)
qed

text \<open>
  The hash in the name is not a lowercase hexadecimal u32: for the hash \<open>6472257073\<close> the
  name is \<open>alg.6472257073.f90\<close>, where the spec's rendering gives \<open>alg.81c6ce31.f90\<close>.
\<close>

theorem get_prebuild_paths_decimal_counterexample:
  "name (fst (get_prebuild_paths (Path [''out''] ''_prebuild'') (Path [''out''] ''alg.f90'')
        (Path [''out''] ''alg_psy.f90'') 6472257073))
     = ''alg.6472257073.f90''
   \<and> stem (Path [''out''] ''alg.f90'') @ ''.'' @ hex_u32 6472257073 @ suffix (Path [''out''] ''alg.f90'')
     = ''alg.81c6ce31.f90''
   \<and> name (fst (get_prebuild_paths (Path [''out''] ''_prebuild'') (Path [''out''] ''alg.f90'')
        (Path [''out''] ''alg_psy.f90'') 6472257073))
     \<noteq> stem (Path [''out''] ''alg.f90'') @ ''.'' @ hex_u32 6472257073
         @ suffix (Path [''out''] ''alg.f90'')"
  by (simp add: get_prebuild_paths_def path_join_def stem_def suffix_def name_stem_def name_suffix_def
      str_int_def hex_u32_def str_nat.simps hex_nat.simps)

theorem get_prebuild_paths_decimal_witness:
  "(0::int) \<le> 41 \<and> suffix (Path [''out''] ''alg.f90'') = ''.f90''
   \<and> suffix (Path [''out''] ''alg_psy.f90'') = ''.f90''
   \<and> get_prebuild_paths (Path [''out''] ''_prebuild'') (Path [''out''] ''alg.f90'')
        (Path [''out''] ''alg_psy.f90'') 41
      = (Path [''out'', ''_prebuild''] ''alg.41.f90'', Path [''out'', ''_prebuild''] ''alg_psy.41.f90'')"
proof -
  have s: "suffix (Path [''out''] ''alg.f90'') = ''.f90''" "suffix (Path [''out''] ''alg_psy.f90'') = ''.f90''"
    and t: "stem (Path [''out''] ''alg.f90'') = ''alg''" "stem (Path [''out''] ''alg_psy.f90'') = ''alg_psy''"
    by (simp_all add: suffix_def name_suffix_def stem_def name_stem_def)
  have h: "(0::int) \<le> 41" by simp
  have i: "str_int 41 = ''41''" by (simp add: str_int_def str_nat.simps)
  from s have ne: "suffix (Path [''out''] ''alg.f90'') \<noteq> []" "suffix (Path [''out''] ''alg_psy.f90'') \<noteq> []"
    by simp_all
  from get_prebuild_paths_decimal [OF h ne, of "Path [''out''] ''_prebuild''"]
  have "get_prebuild_paths (Path [''out''] ''_prebuild'') (Path [''out''] ''alg.f90'')
        (Path [''out''] ''alg_psy.f90'') 41
      = (Path [''out'', ''_prebuild''] ''alg.41.f90'', Path [''out'', ''_prebuild''] ''alg_psy.41.f90'')"
    by (simp add: s t i prod_eq_iff path.expand)
  with h s show ?thesis by (intro conjI)
qed

section \<open>The prebuilds that are registered\<close>










end
